theory Spec2Isabelle
  imports Main "HOL-Library.Word"
begin

section \<open>The step list of the live agent status (LiveAgentStatus, useAgentStatus)\<close>

text \<open>
  The union type \<^verbatim>\<open>'pending' | 'active' | 'completed'\<close> of the interface \<^verbatim>\<open>Step\<close>.
\<close>

datatype status = Pending | Active | Completed

text \<open>
  The interface \<^verbatim>\<open>Step\<close>; its fields \<^verbatim>\<open>id\<close>, \<^verbatim>\<open>name\<close> and \<^verbatim>\<open>status\<close> carry the prefix
  \<open>step_\<close> here (\<open>id\<close> is the identity function of HOL).
\<close>

record step =
  step_id :: string
  step_name :: string
  step_status :: status

text \<open>
  The literal that \<^verbatim>\<open>useAgentStatus\<close> gives to \<^verbatim>\<open>useState\<close> and that \<^verbatim>\<open>resetSteps\<close> gives
  to \<^verbatim>\<open>setSteps\<close> (the source writes it twice, with the same text).
\<close>

definition initial_steps :: "step list" where
  "initial_steps =
     [\<lparr>step_id = ''fetch_enviro_data'', step_name = ''Fetching Data...'', step_status = Pending\<rparr>,
      \<lparr>step_id = ''analyze_risk'', step_name = ''Analyzing Pollen Risks...'', step_status = Pending\<rparr>,
      \<lparr>step_id = ''generate_advice'', step_name = ''Calculating Safe Duration...'', step_status = Pending\<rparr>,
      \<lparr>step_id = ''done'', step_name = ''Done.'', step_status = Pending\<rparr>]"

text \<open>
  \<^verbatim>\<open>Array.prototype.findIndex\<close>: the index of the first element that satisfies the
  predicate; the source's \<^verbatim>\<open>-1\<close> is \<open>None\<close>.
\<close>

fun findIndex :: "('a \<Rightarrow> bool) \<Rightarrow> 'a list \<Rightarrow> nat option" where
  "findIndex p [] = None"
| "findIndex p (x # xs) = (if p x then Some 0 else map_option Suc (findIndex p xs))"

text \<open>
  The body of the loop \<^verbatim>\<open>for (let i = 0; i < stepIndex; i++)\<close> of \<^verbatim>\<open>updateStep\<close>: a step
  that is not completed is replaced by a copy whose status is completed.
\<close>

definition mark_completed :: "nat \<Rightarrow> step list \<Rightarrow> step list" where
  "mark_completed i newSteps =
     (if step_status (newSteps ! i) \<noteq> Completed
      then newSteps[i := (newSteps ! i)\<lparr>step_status := Completed\<rparr>]
      else newSteps)"

text \<open>
  The function that \<^verbatim>\<open>updateStep\<close> hands to \<^verbatim>\<open>setSteps\<close>, from the previous step list to
  the next one. The loop runs over the indices \<open>0 ..< stepIndex\<close>, all of them in range.
\<close>

definition updateStep :: "string \<Rightarrow> status \<Rightarrow> step list \<Rightarrow> step list" where
  "updateStep stepId st prevSteps =
     (case findIndex (\<lambda>s. step_id s = stepId) prevSteps of
        None \<Rightarrow> prevSteps
      | Some stepIndex \<Rightarrow>
          fold mark_completed [0 ..< stepIndex]
            (prevSteps[stepIndex := (prevSteps ! stepIndex)\<lparr>step_status := st\<rparr>]))"

section \<open>Values read from the stream\<close>

text \<open>
  What \<^verbatim>\<open>JSON.parse\<close> returns. A number is kept by its text, since this code never
  computes with one; an object lists its own properties, one entry for each key.
\<close>

datatype json =
    JNull
  | JBool bool
  | JNum string
  | JStr string
  | JArr "json list"
  | JObj "(string \<times> json) list"

text \<open>
  The property read \<^verbatim>\<open>data.key\<close> on a value other than \<^verbatim>\<open>null\<close>, for the keys this code
  reads (\<^verbatim>\<open>type\<close>, \<^verbatim>\<open>step\<close>, \<^verbatim>\<open>data\<close>, \<^verbatim>\<open>message\<close>): \<open>None\<close> is \<^verbatim>\<open>undefined\<close>. Only an object
  has such a property. On \<^verbatim>\<open>null\<close> the read throws; \<open>handle_data\<close> below has that case.
\<close>

fun get_prop :: "json \<Rightarrow> string \<Rightarrow> json option" where
  "get_prop (JObj kvs) k = map_of kvs k"
| "get_prop _ k = None"

text \<open>What the inner \<^verbatim>\<open>catch (parseError)\<close> can receive and hand to \<^verbatim>\<open>console.error\<close>.\<close>

datatype logged =
    SyntaxError string
  | TypeError
  | ThrownError "json option"

text \<open>
  The state of the component \<^verbatim>\<open>Home\<close> that a run touches. \<open>riskData\<close> holds what was
  given to \<^verbatim>\<open>setRiskData\<close> (\<open>Some JNull\<close> is the initial \<^verbatim>\<open>null\<close>, \<open>None\<close> is \<^verbatim>\<open>undefined\<close>);
  \<open>error\<close> is \<open>None\<close> for \<^verbatim>\<open>null\<close>; \<open>console\<close> collects the calls of \<^verbatim>\<open>console.error\<close>
  made by the decode loop.
\<close>

record run =
  steps :: "step list"
  riskData :: "json option"
  loading :: bool
  error :: "string option"
  isStreaming :: bool
  console :: "logged list"

definition resetSteps :: "run \<Rightarrow> run" where
  "resetSteps st = st\<lparr>steps := initial_steps\<rparr>"

text \<open>
  The call \<^verbatim>\<open>updateStep(data.step, status)\<close> of \<^verbatim>\<open>fetchRiskData\<close>. \<^verbatim>\<open>data.step\<close> is any value;
  \<^verbatim>\<open>s.id === stepId\<close> is false for every step when it is not a string, so \<^verbatim>\<open>findIndex\<close>
  gives \<^verbatim>\<open>-1\<close> and the list is returned as it was.
\<close>

definition update_from :: "json option \<Rightarrow> status \<Rightarrow> run \<Rightarrow> run" where
  "update_from v s st =
     (case v of
        Some (JStr stepId) \<Rightarrow> st\<lparr>steps := updateStep stepId s (steps st)\<rparr>
      | _ \<Rightarrow> st)"

text \<open>
  The body of the inner \<^verbatim>\<open>try\<close> after \<^verbatim>\<open>JSON.parse\<close>: \<open>Inl\<close> is what it throws, \<open>Inr\<close> the
  state it leaves. No branch changes the state and then throws.
\<close>

fun handle_data :: "json \<Rightarrow> run \<Rightarrow> logged + run" where
  "handle_data JNull st = Inl TypeError"
| "handle_data data st =
     (if get_prop data ''type'' = Some (JStr ''step_start'') then
        Inr (update_from (get_prop data ''step'') Active st)
      else if get_prop data ''type'' = Some (JStr ''step_complete'') then
        Inr (update_from (get_prop data ''step'') Completed st)
      else if get_prop data ''type'' = Some (JStr ''result'') then
        Inr (st\<lparr>riskData := get_prop data ''data'', isStreaming := False, loading := False\<rparr>)
      else if get_prop data ''type'' = Some (JStr ''error'') then
        Inl (ThrownError (get_prop data ''message''))
      else Inr st)"

section \<open>The platform\<close>

type_synonym byte = "8 word"

text \<open>A thrown value: an \<^verbatim>\<open>Error\<close> with its message, or a value that is no \<^verbatim>\<open>Error\<close>.\<close>

datatype js_exn = JsError string | NonError

text \<open>
  How the reads of the response body end: \<^verbatim>\<open>done\<close>, or a rejected \<^verbatim>\<open>read()\<close>. A body is
  the chunks that \<^verbatim>\<open>reader.read()\<close> delivers, in order, and then this end; on a body whose
  reads never end \<^verbatim>\<open>fetchRiskData\<close> does not return, and such a body is no value here.
\<close>

datatype read_end = Done | ReadFailed js_exn

record response =
  ok :: bool
  statusText :: string
  body :: "(byte list list \<times> read_end) option"

datatype fetch_result = Rejected js_exn | Responded response

record request =
  location :: string
  allergies :: "string list"

text \<open>
  What the browser provides and this repository does not define: \<^verbatim>\<open>JSON.parse\<close> (\<open>None\<close>
  when it throws a \<^verbatim>\<open>SyntaxError\<close>), the \<^verbatim>\<open>TextDecoder\<close> used with \<^verbatim>\<open>{ stream: true }\<close> (it
  keeps a state \<open>'d\<close> between calls: the bytes of a character not yet complete), and
  the answer of \<^verbatim>\<open>fetch\<close> to the request.
\<close>

record 'd platform =
  json_parse :: "string \<Rightarrow> json option"
  decoder_new :: 'd
  text_decode :: "'d \<Rightarrow> byte list \<Rightarrow> string \<times> 'd"
  fetch :: "request \<Rightarrow> fetch_result"

section \<open>The decode loop of fetchRiskData\<close>

text \<open>
  \<^verbatim>\<open>String.prototype.split\<close> with a separator of one character: the pieces between the
  separators, at least one piece. A character that is not the separator joins the first
  piece of the rest (the rest always has one: the case \<open>[]\<close> never arises).
\<close>

fun split_on :: "char \<Rightarrow> string \<Rightarrow> string list" where
  "split_on c [] = [[]]"
| "split_on c (x # xs) =
     (if x = c then [] # split_on c xs
      else (case split_on c xs of
              [] \<Rightarrow> [[x]]
            | piece # pieces \<Rightarrow> (x # piece) # pieces))"

definition startsWith :: "string \<Rightarrow> string \<Rightarrow> bool" where
  "startsWith line p = (take (length p) line = p)"

text \<open>
  One turn of \<^verbatim>\<open>for (const line of lines)\<close>: the test of the prefix, the inner \<^verbatim>\<open>try\<close>
  with \<^verbatim>\<open>JSON.parse(line.slice(6))\<close>, and its \<^verbatim>\<open>catch\<close>, which logs what was thrown.
\<close>

definition process_line :: "'d platform \<Rightarrow> string \<Rightarrow> run \<Rightarrow> run" where
  "process_line P line st =
     (if startsWith line ''data: '' then
        (case (case json_parse P (drop 6 line) of
                 None \<Rightarrow> Inl (SyntaxError (drop 6 line))
               | Some data \<Rightarrow> handle_data data st) of
           Inl parseError \<Rightarrow> st\<lparr>console := console st @ [parseError]\<rparr>
         | Inr st' \<Rightarrow> st')
      else st)"

text \<open>
  The loop \<^verbatim>\<open>while (true)\<close>: each chunk is decoded and appended to the buffer, the buffer
  is split at the line feeds, the last piece (\<^verbatim>\<open>lines.pop() || ''\<close>) is the new buffer and
  the pieces before it are processed in order. The result is the state reached and what
  \<^verbatim>\<open>reader.read()\<close> threw, if it did.
\<close>

fun read_loop ::
  "'d platform \<Rightarrow> 'd \<Rightarrow> string \<Rightarrow> byte list list \<Rightarrow> read_end \<Rightarrow> run \<Rightarrow> run \<times> js_exn option" where
  "read_loop P decoder buffer [] Done st = (st, None)"
| "read_loop P decoder buffer [] (ReadFailed err) st = (st, Some err)"
| "read_loop P decoder buffer (chunk # rest) e st =
     (case text_decode P decoder chunk of
        (text, decoder') \<Rightarrow>
          (let lines = split_on (CHR 0x0A) (buffer @ text)
           in read_loop P decoder' (last lines) rest e
                (fold (process_line P) (butlast lines) st)))"

section \<open>fetchRiskData and handleManualSubmit\<close>

text \<open>
  The white space and line terminators that \<^verbatim>\<open>String.prototype.trim\<close> removes, among the
  characters below 256: tab, line feed, vertical tab, form feed, carriage return, space
  and no-break space.
\<close>

definition is_white_space :: "char \<Rightarrow> bool" where
  "is_white_space c = (c \<in> set [CHR 0x09, CHR 0x0A, CHR 0x0B, CHR 0x0C, CHR 0x0D, CHR 0x20, CHR 0xA0])"

definition trim :: "string \<Rightarrow> string" where
  "trim s = rev (dropWhile is_white_space (rev (dropWhile is_white_space s)))"

text \<open>The outer \<^verbatim>\<open>catch (err)\<close> of \<^verbatim>\<open>fetchRiskData\<close>.\<close>

definition catch_err :: "js_exn \<Rightarrow> run \<Rightarrow> run" where
  "catch_err err st =
     st\<lparr>error := Some (case err of JsError message \<Rightarrow> message
                                  | NonError \<Rightarrow> ''Failed to fetch risk data''),
        isStreaming := False,
        loading := False\<rparr>"

text \<open>
  \<^verbatim>\<open>fetchRiskData\<close>: the state it leaves and the requests it has sent. \<^verbatim>\<open>!loc\<close> holds of the
  empty string.
\<close>

definition fetchRiskData ::
  "'d platform \<Rightarrow> string \<Rightarrow> string list \<Rightarrow> run \<Rightarrow> run \<times> request list" where
  "fetchRiskData P loc allergies0 st0 =
     (let st = resetSteps (st0\<lparr>loading := True, error := None, isStreaming := True\<rparr>)
      in if loc = [] \<or> trim loc = [] then
           (catch_err (JsError ''Please enter a location'') st, [])
         else if length allergies0 = 0 then
           (catch_err (JsError ''Please enter allergies'') st, [])
         else
           (let req = \<lparr>location = trim loc, allergies = allergies0\<rparr>
            in case fetch P req of
                 Rejected err \<Rightarrow> (catch_err err st, [req])
               | Responded r \<Rightarrow>
                   if \<not> ok r then
                     (catch_err (JsError (''API error: '' @ statusText r)) st, [req])
                   else
                     (case body r of
                        None \<Rightarrow> (catch_err (JsError ''No response body'') st, [req])
                      | Some (chunks, e) \<Rightarrow>
                          (case read_loop P (decoder_new P) [] chunks e st of
                             (st', None) \<Rightarrow> (st', [req])
                           | (st', Some err) \<Rightarrow> (catch_err err st', [req])))))"

text \<open>
  \<^verbatim>\<open>handleManualSubmit\<close>, given the two form fields: with no allergy left after the
  split it sets the error and returns, without calling \<^verbatim>\<open>fetchRiskData\<close>.
\<close>

definition handleManualSubmit ::
  "'d platform \<Rightarrow> string \<Rightarrow> string \<Rightarrow> run \<Rightarrow> run \<times> request list" where
  "handleManualSubmit P manualLocation manualAllergies st =
     (let allergiesList =
            filter (\<lambda>a. length a > 0) (map trim (split_on (CHR '','') manualAllergies))
      in if length allergiesList = 0 then
           (st\<lparr>error := Some ''Please enter at least one allergy''\<rparr>, [])
         else fetchRiskData P manualLocation allergiesList st)"

section \<open>Sequences of calls, the decoder's law and concrete runs\<close>

text \<open>The state of \<^verbatim>\<open>Home\<close> before any run, from the arguments of its \<^verbatim>\<open>useState\<close> calls.\<close>

definition Home_initial :: run where
  "Home_initial =
     \<lparr>steps = initial_steps, riskData = Some JNull, loading = False, error = None,
      isStreaming = False, console = []\<rparr>"

text \<open>A sequence of calls \<^verbatim>\<open>updateStep(stepId, status)\<close>, applied in order to a step list.\<close>

definition apply_updates :: "(string \<times> status) list \<Rightarrow> step list \<Rightarrow> step list" where
  "apply_updates calls xs = fold (\<lambda>(stepId, s). updateStep stepId s) calls xs"

text \<open>
  The order of the calls of a sequence, read along it with \<open>m\<close> the highest index found
  so far: a call that finds its step below \<open>m\<close> writes completed. Calls that write
  completed, and calls whose id is not in the list, may stand anywhere.
\<close>

fun in_order :: "nat \<Rightarrow> step list \<Rightarrow> (string \<times> status) list \<Rightarrow> bool" where
  "in_order m xs [] = True"
| "in_order m xs ((stepId, s) # calls) =
     (case findIndex (\<lambda>x. step_id x = stepId) xs of
        None \<Rightarrow> in_order m xs calls
      | Some j \<Rightarrow> (s = Completed \<or> m \<le> j) \<and> in_order (max m j) xs calls)"

text \<open>
  The second property of a step list that the spec asks for: every step before an
  active or completed step is completed.
\<close>

definition completed_before :: "step list \<Rightarrow> bool" where
  "completed_before xs \<longleftrightarrow>
     (\<forall>j<length xs. step_status (xs ! j) \<noteq> Pending \<longrightarrow>
        (\<forall>i<j. step_status (xs ! i) = Completed))"

text \<open>
  What the Encoding standard gives for a \<^verbatim>\<open>TextDecoder\<close> called with \<^verbatim>\<open>{ stream: true }\<close>:
  decoding no bytes yields no text and keeps the state, and decoding two chunks one
  after the other yields the text of decoding them joined.
\<close>

definition streaming :: "'d platform \<Rightarrow> bool" where
  "streaming P \<longleftrightarrow>
     (\<forall>d. text_decode P d [] = ([], d)) \<and>
     (\<forall>d a b. text_decode P d (a @ b) =
        (case text_decode P d a of
           (t1, d1) \<Rightarrow> (case text_decode P d1 b of (t2, d2) \<Rightarrow> (t1 @ t2, d2))))"

text \<open>
  A platform for concrete runs. Its parser gives the value of \<^verbatim>\<open>JSON.parse\<close> on the
  payloads listed and rejects every other text (the only other payload used below is a
  record cut short, which \<^verbatim>\<open>JSON.parse\<close> rejects too); its decoder reads each byte as
  one character, as UTF-8 does for ASCII; its server answers every request with the
  stream given, in one chunk.
\<close>

definition sample_parse :: "string \<Rightarrow> json option" where
  \<open>sample_parse payload =
     map_of
       [(''{"type": "step_start", "step": "analyze_risk"}'',
           JObj [(''type'', JStr ''step_start''), (''step'', JStr ''analyze_risk'')]),
        (''{"type": "step_start", "step": "warm_up"}'',
           JObj [(''type'', JStr ''step_start''), (''step'', JStr ''warm_up'')]),
        (''{"type": "error", "message": "boom"}'',
           JObj [(''type'', JStr ''error''), (''message'', JStr ''boom'')])]
       payload\<close>

definition sample_platform :: "string \<Rightarrow> unit platform" where
  "sample_platform stream =
     \<lparr>json_parse = sample_parse,
      decoder_new = (),
      text_decode = (\<lambda>d bytes. (map (\<lambda>b. char_of (unat b)) bytes, d)),
      fetch = (\<lambda>req. Responded \<lparr>ok = True, statusText = ''OK'',
                                   body = Some ([map of_char stream], Done)\<rparr>)\<rparr>"

text \<open>
  The same platform on a connection that drops: after the chunk, \<^verbatim>\<open>reader.read()\<close> is
  rejected with an \<^verbatim>\<open>Error\<close>.
\<close>

definition interrupted_platform :: "string \<Rightarrow> unit platform" where
  "interrupted_platform stream =
     (sample_platform stream)
       \<lparr>fetch := (\<lambda>req. Responded \<lparr>ok = True, statusText = ''OK'',
                    body = Some ([map of_char stream], ReadFailed (JsError ''network error''))\<rparr>)\<rparr>"

text \<open>
  The text of a body: what the decoder yields for its chunks, one after the other, joined.
\<close>

fun decode_all :: "'d platform \<Rightarrow> 'd \<Rightarrow> byte list list \<Rightarrow> string" where
  "decode_all P d [] = []"
| "decode_all P d (chunk # rest) =
     (case text_decode P d chunk of (text, d') \<Rightarrow> text @ decode_all P d' rest)"

text \<open>
  The shape of a step list whose progress stands at index \<open>k\<close>: every step before \<open>k\<close>
  is completed and every step after \<open>k\<close> is pending.
\<close>

definition settled_upto :: "nat \<Rightarrow> step list \<Rightarrow> bool" where
  "settled_upto k xs \<longleftrightarrow>
     (\<forall>i<length xs. (i < k \<longrightarrow> step_status (xs ! i) = Completed) \<and>
                      (k < i \<longrightarrow> step_status (xs ! i) = Pending))"

text \<open>
  What one turn of the \<^verbatim>\<open>while\<close> loop does with the text decoded from a chunk: the
  buffer and the state it leaves.
\<close>

definition feed :: "'d platform \<Rightarrow> string \<Rightarrow> string \<Rightarrow> run \<Rightarrow> string \<times> run" where
  "feed P buffer text st =
     (last (split_on (CHR 0x0A) (buffer @ text)),
      fold (process_line P) (butlast (split_on (CHR 0x0A) (buffer @ text))) st)"

definition thrown :: "read_end \<Rightarrow> js_exn option" where
  "thrown e = (case e of Done \<Rightarrow> None | ReadFailed err \<Rightarrow> Some err)"

section \<open>Facts about findIndex and updateStep\<close>

lemma findIndex_Some:
  "findIndex p xs = Some k \<Longrightarrow> k < length xs \<and> p (xs ! k) \<and> (\<forall>i<k. \<not> p (xs ! i))"
proof (induction xs arbitrary: k)
  case Nil
  then show ?case by simp
next
  case (Cons x xs)
  show ?case
  proof (cases "p x")
    case True
    with Cons.prems show ?thesis by simp
  next
    case False
    with Cons.prems obtain j where j: "findIndex p xs = Some j" "k = Suc j"
      by auto
    from Cons.IH [OF j(1)] False j(2) show ?thesis
      by (auto simp: nth_Cons split: nat.splits)
  qed
qed

lemma findIndex_None: "findIndex p xs = None \<longleftrightarrow> (\<forall>x\<in>set xs. \<not> p x)"
  by (induction xs) auto

lemma findIndex_map: "findIndex p (map f xs) = findIndex (\<lambda>x. p (f x)) xs"
  by (induction xs) auto

lemma completed_update_same:
  "step_status r = Completed \<Longrightarrow> r\<lparr>step_status := Completed\<rparr> = r"
  by (cases r) simp

lemma mark_completed_eq:
  "mark_completed i xs = xs[i := (xs ! i)\<lparr>step_status := Completed\<rparr>]"
  by (simp add: mark_completed_def completed_update_same)

lemma fold_mark_Suc:
  "fold mark_completed [0 ..< Suc k] xs = mark_completed k (fold mark_completed [0 ..< k] xs)"
  by simp

lemma length_mark_completed: "length (mark_completed i xs) = length xs"
  by (simp add: mark_completed_eq)

lemma length_fold_mark: "length (fold mark_completed [0 ..< k] xs) = length xs"
proof (induction k)
  case 0
  show ?case by simp
next
  case (Suc k)
  then show ?case
    by (simp only: fold_mark_Suc length_mark_completed)
qed

lemma nth_fold_mark:
  "i < length xs \<Longrightarrow>
   fold mark_completed [0 ..< k] xs ! i =
     (if i < k then (xs ! i)\<lparr>step_status := Completed\<rparr> else xs ! i)"
proof (induction k)
  case 0
  then show ?case by simp
next
  case (Suc k)
  let ?ys = "fold mark_completed [0 ..< k] xs"
  have len: "i < length ?ys"
    using Suc.prems by (simp only: length_fold_mark)
  have step: "fold mark_completed [0 ..< Suc k] xs = ?ys[k := (?ys ! k)\<lparr>step_status := Completed\<rparr>]"
    by (simp only: fold_mark_Suc mark_completed_eq)
  show ?case
  proof (cases "i = k")
    case True
    with len Suc.IH [OF Suc.prems] show ?thesis
      by (simp only: step) simp
  next
    case False
    with len Suc.IH [OF Suc.prems] show ?thesis
      by (simp only: step) (simp add: less_Suc_eq)
  qed
qed

lemma length_updateStep: "length (updateStep sid s xs) = length xs"
  by (simp add: updateStep_def length_fold_mark split: option.splits)

lemma nth_updateStep:
  assumes "findIndex (\<lambda>x. step_id x = sid) xs = Some k" and "i < length xs"
  shows "updateStep sid s xs ! i =
     (if i < k then (xs ! i)\<lparr>step_status := Completed\<rparr>
      else if i = k then (xs ! i)\<lparr>step_status := s\<rparr> else xs ! i)"
  using assms findIndex_Some [OF assms(1)]
  by (simp add: updateStep_def nth_fold_mark nth_list_update)

lemma updateStep_unknown:
  "findIndex (\<lambda>x. step_id x = sid) xs = None \<Longrightarrow> updateStep sid s xs = xs"
  by (simp add: updateStep_def)

lemma map_id_updateStep: "map step_id (updateStep sid s xs) = map step_id xs"
proof (cases "findIndex (\<lambda>x. step_id x = sid) xs")
  case None
  then show ?thesis by (simp add: updateStep_unknown)
next
  case (Some k)
  show ?thesis
    by (rule nth_equalityI) (simp_all add: length_updateStep nth_updateStep [OF Some])
qed

lemma findIndex_by_ids:
  "findIndex (\<lambda>x. step_id x = t) ys = findIndex (\<lambda>i. i = t) (map step_id ys)"
  by (simp add: findIndex_map)

lemma findIndex_updateStep:
  "findIndex (\<lambda>x. step_id x = t) (updateStep sid s xs) = findIndex (\<lambda>x. step_id x = t) xs"
  by (simp only: findIndex_by_ids [of t "updateStep sid s xs"] findIndex_by_ids [of t xs]
        map_id_updateStep)

lemma handle_data_step:
  assumes "get_prop data ''type'' = Some (JStr ty)"
  shows "handle_data data st =
     (if ty = ''step_start'' then Inr (update_from (get_prop data ''step'') Active st)
      else if ty = ''step_complete'' then Inr (update_from (get_prop data ''step'') Completed st)
      else if ty = ''result'' then
        Inr (st\<lparr>riskData := get_prop data ''data'', isStreaming := False, loading := False\<rparr>)
      else if ty = ''error'' then Inl (ThrownError (get_prop data ''message''))
      else Inr st)"
  using assms by (cases data) simp_all

lemma initial_findIndex:
  "findIndex (\<lambda>x. step_id x = ''fetch_enviro_data'') initial_steps = Some 0"
  "findIndex (\<lambda>x. step_id x = ''analyze_risk'') initial_steps = Some 1"
  "findIndex (\<lambda>x. step_id x = ''generate_advice'') initial_steps = Some 2"
  "findIndex (\<lambda>x. step_id x = ''done'') initial_steps = Some 3"
  "findIndex (\<lambda>x. step_id x = ''warm_up'') initial_steps = None"
  by (simp_all add: initial_steps_def)

section \<open>step\_start and step\_complete\<close>

text \<open>
  C3. On \<^verbatim>\<open>step_start{id}\<close> with an id that the step list has (first at index \<open>k\<close>), the
  handler calls \<^verbatim>\<open>updateStep(id, 'active')\<close>; afterwards step \<open>k\<close> is active and every step
  at an earlier index is completed, whether or not a \<^verbatim>\<open>step_complete\<close> came for it. The
  witness is the case of the spec: \<^verbatim>\<open>step_start\<close> for \<^verbatim>\<open>analyze_risk\<close> arrives while
  \<^verbatim>\<open>fetch_enviro_data\<close> is still active, and \<^verbatim>\<open>fetch_enviro_data\<close> ends completed.
\<close>

theorem step_start_activates_and_completes_earlier:
  assumes "get_prop data ''type'' = Some (JStr ''step_start'')"
    and "get_prop data ''step'' = Some (JStr sid)"
    and "findIndex (\<lambda>x. step_id x = sid) (steps st) = Some k"
  shows "handle_data data st = Inr (st\<lparr>steps := updateStep sid Active (steps st)\<rparr>) \<and>
         length (updateStep sid Active (steps st)) = length (steps st) \<and>
         step_status (updateStep sid Active (steps st) ! k) = Active \<and>
         (\<forall>i<k. step_status (updateStep sid Active (steps st) ! i) = Completed)"
proof -
  from findIndex_Some [OF assms(3)] have k: "k < length (steps st)"
    by simp
  have "handle_data data st = Inr (st\<lparr>steps := updateStep sid Active (steps st)\<rparr>)"
    by (simp add: handle_data_step [OF assms(1)] update_from_def assms(2))
  moreover have "step_status (updateStep sid Active (steps st) ! k) = Active"
    using k by (simp add: nth_updateStep [OF assms(3)])
  moreover have "step_status (updateStep sid Active (steps st) ! i) = Completed" if "i < k" for i
    using that k by (simp add: nth_updateStep [OF assms(3)])
  ultimately show ?thesis
    by (simp add: length_updateStep)
qed

theorem step_start_activates_and_completes_earlier_witness:
  "get_prop (JObj [(''type'', JStr ''step_start''), (''step'', JStr ''analyze_risk'')]) ''type''
     = Some (JStr ''step_start'') \<and>
   get_prop (JObj [(''type'', JStr ''step_start''), (''step'', JStr ''analyze_risk'')]) ''step''
     = Some (JStr ''analyze_risk'') \<and>
   findIndex (\<lambda>x. step_id x = ''analyze_risk'')
     (steps (Home_initial\<lparr>steps := updateStep ''fetch_enviro_data'' Active initial_steps\<rparr>)) = Some 1 \<and>
   step_status (updateStep ''fetch_enviro_data'' Active initial_steps ! 0) = Active \<and>
   step_status
     (updateStep ''analyze_risk'' Active (updateStep ''fetch_enviro_data'' Active initial_steps) ! 1)
     = Active \<and>
   step_status
     (updateStep ''analyze_risk'' Active (updateStep ''fetch_enviro_data'' Active initial_steps) ! 0)
     = Completed"
proof -
  let ?data = "JObj [(''type'', JStr ''step_start''), (''step'', JStr ''analyze_risk'')]"
  let ?st = "Home_initial\<lparr>steps := updateStep ''fetch_enviro_data'' Active initial_steps\<rparr>"
  have ty: "get_prop ?data ''type'' = Some (JStr ''step_start'')"
    by simp
  have sid: "get_prop ?data ''step'' = Some (JStr ''analyze_risk'')"
    by simp
  have k: "findIndex (\<lambda>x. step_id x = ''analyze_risk'') (steps ?st) = Some 1"
    by (simp add: findIndex_updateStep initial_findIndex)
  have before: "step_status (updateStep ''fetch_enviro_data'' Active initial_steps ! 0) = Active"
    using nth_updateStep [OF initial_findIndex(1), of 0 Active]
    by (simp add: initial_steps_def)
  from step_start_activates_and_completes_earlier [OF ty sid k] ty sid k before
  show ?thesis
    by simp
qed

text \<open>
  C10. On \<^verbatim>\<open>step_complete{id}\<close> with an id that the step list has (first at index \<open>k\<close>),
  the handler calls \<^verbatim>\<open>updateStep(id, 'completed')\<close>, which completes step \<open>k\<close> and, by the
  same loop as for \<^verbatim>\<open>step_start\<close>, every step at an earlier index.
\<close>

theorem step_complete_completes_earlier_too:
  assumes "get_prop data ''type'' = Some (JStr ''step_complete'')"
    and "get_prop data ''step'' = Some (JStr sid)"
    and "findIndex (\<lambda>x. step_id x = sid) (steps st) = Some k"
  shows "handle_data data st = Inr (st\<lparr>steps := updateStep sid Completed (steps st)\<rparr>) \<and>
         length (updateStep sid Completed (steps st)) = length (steps st) \<and>
         (\<forall>i\<le>k. step_status (updateStep sid Completed (steps st) ! i) = Completed)"
proof -
  from findIndex_Some [OF assms(3)] have k: "k < length (steps st)"
    by simp
  have "handle_data data st = Inr (st\<lparr>steps := updateStep sid Completed (steps st)\<rparr>)"
    by (simp add: handle_data_step [OF assms(1)] update_from_def assms(2))
  moreover have "step_status (updateStep sid Completed (steps st) ! i) = Completed" if "i \<le> k" for i
    using that k by (simp add: nth_updateStep [OF assms(3)])
  ultimately show ?thesis
    by (simp add: length_updateStep)
qed

theorem step_complete_completes_earlier_too_witness:
  "get_prop (JObj [(''type'', JStr ''step_complete''), (''step'', JStr ''generate_advice'')]) ''type''
     = Some (JStr ''step_complete'') \<and>
   get_prop (JObj [(''type'', JStr ''step_complete''), (''step'', JStr ''generate_advice'')]) ''step''
     = Some (JStr ''generate_advice'') \<and>
   findIndex (\<lambda>x. step_id x = ''generate_advice'') (steps Home_initial) = Some 2 \<and>
   map step_status (steps Home_initial) = [Pending, Pending, Pending, Pending] \<and>
   step_status (updateStep ''generate_advice'' Completed (steps Home_initial) ! 0) = Completed \<and>
   step_status (updateStep ''generate_advice'' Completed (steps Home_initial) ! 1) = Completed \<and>
   step_status (updateStep ''generate_advice'' Completed (steps Home_initial) ! 2) = Completed"
proof -
  let ?data = "JObj [(''type'', JStr ''step_complete''), (''step'', JStr ''generate_advice'')]"
  have ty: "get_prop ?data ''type'' = Some (JStr ''step_complete'')"
    by simp
  have sid: "get_prop ?data ''step'' = Some (JStr ''generate_advice'')"
    by simp
  have k: "findIndex (\<lambda>x. step_id x = ''generate_advice'') (steps Home_initial) = Some 2"
    by (simp add: Home_initial_def initial_findIndex)
  have init: "map step_status (steps Home_initial) = [Pending, Pending, Pending, Pending]"
    by (simp add: Home_initial_def initial_steps_def)
  from step_complete_completes_earlier_too [OF ty sid k]
  have "\<forall>i\<le>2. step_status (updateStep ''generate_advice'' Completed (steps Home_initial) ! i)
          = Completed"
    by simp
  then have "step_status (updateStep ''generate_advice'' Completed (steps Home_initial) ! 0) = Completed"
    and "step_status (updateStep ''generate_advice'' Completed (steps Home_initial) ! 1) = Completed"
    and "step_status (updateStep ''generate_advice'' Completed (steps Home_initial) ! 2) = Completed"
    by simp_all
  with ty sid k init show ?thesis
    by simp
qed

text \<open>
  C6. A \<^verbatim>\<open>step_start\<close> or \<^verbatim>\<open>step_complete\<close> event whose \<^verbatim>\<open>step\<close> is the id of no step in the
  list changes nothing: the handler returns the state it was given without throwing,
  \<^verbatim>\<open>updateStep\<close> returns the list it was given for either status, and the whole turn of
  the loop for a line that parses to this event leaves the state (its error and its
  flags too) as it was.
\<close>

theorem unknown_step_id_is_ignored:
  assumes "get_prop data ''type'' = Some (JStr ''step_start'') \<or>
           get_prop data ''type'' = Some (JStr ''step_complete'')"
    and "get_prop data ''step'' \<notin> set (map (\<lambda>x. Some (JStr (step_id x))) (steps st))"
  shows "handle_data data st = Inr st \<and>
         (\<forall>sid s. get_prop data ''step'' = Some (JStr sid) \<longrightarrow>
            updateStep sid s (steps st) = steps st) \<and>
         (\<forall>P line. startsWith line ''data: '' \<and> json_parse P (drop 6 line) = Some data \<longrightarrow>
            process_line P line st = st)"
proof -
  have unknown: "updateStep sid s (steps st) = steps st"
    if "get_prop data ''step'' = Some (JStr sid)" for sid s
  proof -
    from that assms(2) have "\<forall>x\<in>set (steps st). step_id x \<noteq> sid"
      by auto
    then have "findIndex (\<lambda>x. step_id x = sid) (steps st) = None"
      by (simp add: findIndex_None)
    then show ?thesis
      by (rule updateStep_unknown)
  qed
  have same: "update_from (get_prop data ''step'') s st = st" for s
    by (simp add: update_from_def unknown split: option.splits json.splits)
  from assms(1) have handled: "handle_data data st = Inr st"
  proof
    assume "get_prop data ''type'' = Some (JStr ''step_start'')"
    then show ?thesis
      by (simp add: handle_data_step same)
  next
    assume "get_prop data ''type'' = Some (JStr ''step_complete'')"
    then show ?thesis
      by (simp add: handle_data_step same)
  qed
  have "process_line P line st = st"
    if "startsWith line ''data: '' \<and> json_parse P (drop 6 line) = Some data"
    for P :: "'d platform" and line
    using that handled by (simp add: process_line_def)
  with handled unknown show ?thesis
    by blast
qed

theorem unknown_step_id_is_ignored_witness:
  \<open>(get_prop (JObj [(''type'', JStr ''step_start''), (''step'', JStr ''warm_up'')]) ''type''
      = Some (JStr ''step_start'') \<or>
    get_prop (JObj [(''type'', JStr ''step_start''), (''step'', JStr ''warm_up'')]) ''type''
      = Some (JStr ''step_complete'')) \<and>
   get_prop (JObj [(''type'', JStr ''step_start''), (''step'', JStr ''warm_up'')]) ''step''
     \<notin> set (map (\<lambda>x. Some (JStr (step_id x))) (steps Home_initial)) \<and>
   handle_data (JObj [(''type'', JStr ''step_start''), (''step'', JStr ''warm_up'')]) Home_initial
     = Inr Home_initial \<and>
   updateStep ''warm_up'' Active (steps Home_initial) = steps Home_initial \<and>
   process_line (sample_platform []) ''data: {"type": "step_start", "step": "warm_up"}''
     Home_initial = Home_initial\<close>
proof -
  let ?data = "JObj [(''type'', JStr ''step_start''), (''step'', JStr ''warm_up'')]"
  let ?line = \<open>''data: {"type": "step_start", "step": "warm_up"}''\<close>
  have ty: "get_prop ?data ''type'' = Some (JStr ''step_start'') \<or>
            get_prop ?data ''type'' = Some (JStr ''step_complete'')"
    by simp
  have unknown: "get_prop ?data ''step''
      \<notin> set (map (\<lambda>x. Some (JStr (step_id x))) (steps Home_initial))"
    by (simp add: Home_initial_def initial_steps_def)
  have sid: "get_prop ?data ''step'' = Some (JStr ''warm_up'')"
    by simp
  have line: "startsWith ?line ''data: '' \<and>
      json_parse (sample_platform []) (drop 6 ?line) = Some ?data"
    by (simp add: startsWith_def sample_platform_def sample_parse_def)
  from unknown_step_id_is_ignored [OF ty unknown] sid line
  have "handle_data ?data Home_initial = Inr Home_initial"
    and "updateStep ''warm_up'' Active (steps Home_initial) = steps Home_initial"
    and "process_line (sample_platform []) ?line Home_initial = Home_initial"
    by blast+
  with ty unknown show ?thesis
    by blast
qed

section \<open>Regression of a completed step\<close>

text \<open>
  C2, as the spec states it, fails: \<^verbatim>\<open>updateStep\<close> writes the status it is given into
  the step it finds, whatever that step's status was. After \<^verbatim>\<open>step_complete\<close> for
  \<^verbatim>\<open>fetch_enviro_data\<close> the step is completed, and a late \<^verbatim>\<open>step_start\<close> for the same id
  makes it active again.
\<close>

theorem late_step_start_reactivates_completed_step:
  "step_status (updateStep ''fetch_enviro_data'' Completed initial_steps ! 0) = Completed \<and>
   handle_data (JObj [(''type'', JStr ''step_start''), (''step'', JStr ''fetch_enviro_data'')])
     (Home_initial\<lparr>steps := updateStep ''fetch_enviro_data'' Completed initial_steps\<rparr>)
   = Inr (Home_initial\<lparr>steps := updateStep ''fetch_enviro_data'' Active
            (updateStep ''fetch_enviro_data'' Completed initial_steps)\<rparr>) \<and>
   step_status
     (updateStep ''fetch_enviro_data'' Active
        (updateStep ''fetch_enviro_data'' Completed initial_steps) ! 0) = Active"
proof -
  have found: "findIndex (\<lambda>x. step_id x = ''fetch_enviro_data'')
      (updateStep ''fetch_enviro_data'' Completed initial_steps) = Some 0"
    by (simp only: findIndex_updateStep initial_findIndex)
  have len: "0 < length (updateStep ''fetch_enviro_data'' Completed initial_steps)"
    by (simp add: length_updateStep initial_steps_def)
  have "step_status (updateStep ''fetch_enviro_data'' Completed initial_steps ! 0) = Completed"
    using nth_updateStep [OF initial_findIndex(1), of 0 Completed]
    by (simp add: initial_steps_def)
  moreover have "step_status
     (updateStep ''fetch_enviro_data'' Active
        (updateStep ''fetch_enviro_data'' Completed initial_steps) ! 0) = Active"
    using nth_updateStep [OF found len, of Active] by simp
  ultimately show ?thesis
    by (simp add: update_from_def Home_initial_def)
qed

lemma updateStep_not_set_pending:
  assumes "i < length xs" and "s \<noteq> Pending"
    and "step_status (updateStep sid s xs ! i) = Pending"
  shows "step_status (xs ! i) = Pending"
proof (cases "findIndex (\<lambda>x. step_id x = sid) xs")
  case None
  with assms(3) show ?thesis
    by (simp add: updateStep_unknown)
next
  case (Some k)
  from assms show ?thesis
    by (simp add: nth_updateStep [OF Some] split: if_splits)
qed

lemma update_from_not_set_pending:
  assumes "i < length (steps st)" and "s \<noteq> Pending"
    and "step_status (steps (update_from v s st) ! i) = Pending"
  shows "step_status (steps st ! i) = Pending"
proof (cases "\<exists>sid. v = Some (JStr sid)")
  case False
  then have "update_from v s st = st"
    by (auto simp: update_from_def split: option.splits json.splits)
  with assms(3) show ?thesis
    by simp
next
  case True
  then obtain sid where "v = Some (JStr sid)"
    by blast
  then have "steps (update_from v s st) = updateStep sid s (steps st)"
    by (simp add: update_from_def)
  with assms show ?thesis
    by (simp add: updateStep_not_set_pending)
qed

lemma length_update_from: "length (steps (update_from v s st)) = length (steps st)"
  by (simp add: update_from_def length_updateStep split: option.splits json.splits)

lemma handle_data_cases:
  assumes "handle_data data st = Inr st'"
  shows "st' = update_from (get_prop data ''step'') Active st \<and>
           get_prop data ''type'' = Some (JStr ''step_start'') \<or>
         st' = update_from (get_prop data ''step'') Completed st \<and>
           get_prop data ''type'' = Some (JStr ''step_complete'') \<or>
         steps st' = steps st"
  using assms by (cases data) (auto split: if_splits)

lemma handle_data_not_set_pending:
  assumes "handle_data data st = Inr st'"
  shows "length (steps st') = length (steps st) \<and>
         (i < length (steps st) \<longrightarrow> step_status (steps st' ! i) = Pending \<longrightarrow>
            step_status (steps st ! i) = Pending)"
  using handle_data_cases [OF assms]
proof (elim disjE conjE)
  assume "st' = update_from (get_prop data ''step'') Active st"
  then show ?thesis
    using update_from_not_set_pending [of i st Active "get_prop data ''step''"]
    by (simp add: length_update_from)
next
  assume "st' = update_from (get_prop data ''step'') Completed st"
  then show ?thesis
    using update_from_not_set_pending [of i st Completed "get_prop data ''step''"]
    by (simp add: length_update_from)
next
  assume "steps st' = steps st"
  then show ?thesis
    by simp
qed

lemma process_line_not_set_pending:
  "length (steps (process_line P line st)) = length (steps st) \<and>
   (i < length (steps st) \<longrightarrow> step_status (steps (process_line P line st) ! i) = Pending \<longrightarrow>
      step_status (steps st ! i) = Pending)"
proof (cases "startsWith line ''data: ''")
  case False
  then show ?thesis
    by (simp add: process_line_def)
next
  case True
  show ?thesis
  proof (cases "json_parse P (drop 6 line)")
    case None
    with True show ?thesis
      by (simp add: process_line_def)
  next
    case (Some data)
    show ?thesis
    proof (cases "handle_data data st")
      case (Inl thrown)
      with True Some show ?thesis
        by (simp add: process_line_def)
    next
      case (Inr st')
      with True Some have "process_line P line st = st'"
        by (simp add: process_line_def)
      with handle_data_not_set_pending [OF Inr, of i] show ?thesis
        by simp
    qed
  qed
qed

lemma fold_process_line_not_set_pending:
  "length (steps (fold (process_line P) lines st)) = length (steps st) \<and>
   (i < length (steps st) \<longrightarrow>
      step_status (steps (fold (process_line P) lines st) ! i) = Pending \<longrightarrow>
      step_status (steps st ! i) = Pending)"
proof (induction lines arbitrary: st)
  case Nil
  show ?case by simp
next
  case (Cons line lines)
  from Cons.IH [of "process_line P line st"] process_line_not_set_pending [of P line st i]
  show ?case
    by simp
qed

text \<open>
  C2, amended. No event sets a step to pending: a step that is pending after an event,
  or after any sequence of lines, was pending before. A completed step stays completed
  under every event that the handler accepts, except a \<^verbatim>\<open>step_start\<close> that names this
  very step: \<^verbatim>\<open>step_complete\<close> events, \<^verbatim>\<open>step_start\<close> events for other or unknown ids,
  \<^verbatim>\<open>result\<close> events and events of any other type leave it completed. Under a
  \<^verbatim>\<open>step_start\<close> that names it, a completed step becomes active or stays completed.
\<close>

theorem completed_step_stays_completed:
  assumes "handle_data data st = Inr st'"
    and "i < length (steps st)"
  shows "length (steps st') = length (steps st) \<and>
         (step_status (steps st' ! i) = Pending \<longrightarrow> step_status (steps st ! i) = Pending) \<and>
         (step_status (steps st ! i) = Completed \<and>
          \<not> (get_prop data ''type'' = Some (JStr ''step_start'') \<and>
             get_prop data ''step'' = Some (JStr (step_id (steps st ! i)))) \<longrightarrow>
            step_status (steps st' ! i) = Completed) \<and>
         (\<forall>P lines.
            length (steps (fold (process_line P) lines st)) = length (steps st) \<and>
            (step_status (steps (fold (process_line P) lines st) ! i) = Pending \<longrightarrow>
               step_status (steps st ! i) = Pending))"
proof -
  have upd: "step_status (steps (update_from v s st) ! i) = Completed"
    if "step_status (steps st ! i) = Completed"
      and "s = Completed \<or> v \<noteq> Some (JStr (step_id (steps st ! i)))" for v s
  proof (cases "\<exists>sid. v = Some (JStr sid)")
    case False
    then have "update_from v s st = st"
      by (auto simp: update_from_def split: option.splits json.splits)
    with that(1) show ?thesis
      by simp
  next
    case True
    then obtain sid where v: "v = Some (JStr sid)"
      by blast
    then have eq: "steps (update_from v s st) = updateStep sid s (steps st)"
      by (simp add: update_from_def)
    show ?thesis
    proof (cases "findIndex (\<lambda>x. step_id x = sid) (steps st)")
      case None
      with that(1) show ?thesis
        by (simp add: eq updateStep_unknown)
    next
      case (Some k)
      from findIndex_Some [OF Some] have "step_id (steps st ! k) = sid"
        by simp
      with that(2) v have "s = Completed \<or> i \<noteq> k"
        by auto
      with assms(2) that(1) show ?thesis
        by (auto simp: eq nth_updateStep [OF Some])
    qed
  qed
  have kept: "step_status (steps st' ! i) = Completed"
    if c: "step_status (steps st ! i) = Completed"
      and other: "\<not> (get_prop data ''type'' = Some (JStr ''step_start'') \<and>
             get_prop data ''step'' = Some (JStr (step_id (steps st ! i))))"
    using handle_data_cases [OF assms(1)]
  proof (elim disjE conjE)
    assume "st' = update_from (get_prop data ''step'') Active st"
      and "get_prop data ''type'' = Some (JStr ''step_start'')"
    with other upd [OF c, of Active "get_prop data ''step''"] show ?thesis
      by simp
  next
    assume "st' = update_from (get_prop data ''step'') Completed st"
    with upd [OF c, of Completed] show ?thesis
      by simp
  next
    assume "steps st' = steps st"
    with c show ?thesis
      by simp
  qed
  have seq: "length (steps (fold (process_line P) lines st)) = length (steps st) \<and>
      (step_status (steps (fold (process_line P) lines st) ! i) = Pending \<longrightarrow>
         step_status (steps st ! i) = Pending)" for P :: "'d platform" and lines
    using fold_process_line_not_set_pending [of P lines st i] assms(2) by simp
  from handle_data_not_set_pending [OF assms(1), of i] assms(2)
  have one: "length (steps st') = length (steps st)"
    and "step_status (steps st' ! i) = Pending \<longrightarrow> step_status (steps st ! i) = Pending"
    by simp_all
  with kept seq show ?thesis
    by blast
qed

theorem completed_step_stays_completed_witness:
  \<open>handle_data (JObj [(''type'', JStr ''step_start''), (''step'', JStr ''analyze_risk'')])
     (Home_initial\<lparr>steps := updateStep ''fetch_enviro_data'' Completed initial_steps\<rparr>)
   = Inr (Home_initial\<lparr>steps := updateStep ''analyze_risk'' Active
            (updateStep ''fetch_enviro_data'' Completed initial_steps)\<rparr>) \<and>
   0 < length (updateStep ''fetch_enviro_data'' Completed initial_steps) \<and>
   step_status (updateStep ''fetch_enviro_data'' Completed initial_steps ! 0) = Completed \<and>
   \<not> (get_prop (JObj [(''type'', JStr ''step_start''), (''step'', JStr ''analyze_risk'')]) ''type''
        = Some (JStr ''step_start'') \<and>
      get_prop (JObj [(''type'', JStr ''step_start''), (''step'', JStr ''analyze_risk'')]) ''step''
        = Some (JStr (step_id (updateStep ''fetch_enviro_data'' Completed initial_steps ! 0)))) \<and>
   step_status
     (updateStep ''analyze_risk'' Active
        (updateStep ''fetch_enviro_data'' Completed initial_steps) ! 0) = Completed \<and>
   step_status
     (steps (fold (process_line (sample_platform []))
        [''data: {"type": "step_start", "step": "warm_up"}'',
         ''data: {"type": "step_start", "step": "analyze_risk"}'']
        (Home_initial\<lparr>steps := updateStep ''fetch_enviro_data'' Completed initial_steps\<rparr>)) ! 0)
     \<noteq> Pending\<close>
proof -
  let ?data = "JObj [(''type'', JStr ''step_start''), (''step'', JStr ''analyze_risk'')]"
  let ?xs = "updateStep ''fetch_enviro_data'' Completed initial_steps"
  let ?st = "Home_initial\<lparr>steps := ?xs\<rparr>"
  let ?st' = "Home_initial\<lparr>steps := updateStep ''analyze_risk'' Active ?xs\<rparr>"
  let ?lines = \<open>[''data: {"type": "step_start", "step": "warm_up"}'',
                 ''data: {"type": "step_start", "step": "analyze_risk"}'']\<close>
  have first: "?xs ! 0 = \<lparr>step_id = ''fetch_enviro_data'', step_name = ''Fetching Data...'',
                          step_status = Completed\<rparr>"
    using nth_updateStep [OF initial_findIndex(1), of 0 Completed]
    by (simp add: initial_steps_def)
  have h1: "handle_data ?data ?st = Inr ?st'"
    by (simp add: update_from_def Home_initial_def)
  have h2: "0 < length (steps ?st)"
    by (simp add: length_updateStep initial_steps_def)
  have h3: "step_status (steps ?st ! 0) = Completed"
    by (simp add: first)
  have h4: "\<not> (get_prop ?data ''type'' = Some (JStr ''step_start'') \<and>
               get_prop ?data ''step'' = Some (JStr (step_id (steps ?st ! 0))))"
    by (simp add: first)
  note all = completed_step_stays_completed [OF h1 h2]
  note stays = all [THEN conjunct2, THEN conjunct2, THEN conjunct1, THEN mp]
  note lines = all [THEN conjunct2, THEN conjunct2, THEN conjunct2, THEN spec, THEN spec,
    THEN conjunct2, THEN mp]
  have "step_status (steps ?st' ! 0) = Completed"
    by (rule stays) (intro conjI h3 h4)
  then have kept: "step_status (updateStep ''analyze_risk'' Active ?xs ! 0) = Completed"
    by simp
  have seq: "step_status (steps (fold (process_line (sample_platform [])) ?lines ?st) ! 0)
      \<noteq> Pending"
  proof
    assume "step_status (steps (fold (process_line (sample_platform [])) ?lines ?st) ! 0) = Pending"
    then have "step_status (steps ?st ! 0) = Pending"
      by (rule lines)
    with h3 show False
      by simp
  qed
  from h2 have len: "0 < length ?xs"
    by simp
  from h3 have comp: "step_status (?xs ! 0) = Completed"
    by simp
  from h4 have other: "\<not> (get_prop ?data ''type'' = Some (JStr ''step_start'') \<and>
               get_prop ?data ''step'' = Some (JStr (step_id (?xs ! 0))))"
    by simp
  from h1 len comp other kept seq show ?thesis
    by (intro conjI)
qed

section \<open>The shape of the step list\<close>

lemma settled_updateStep:
  assumes "settled_upto k xs"
    and "findIndex (\<lambda>x. step_id x = sid) xs = Some j"
    and "k \<le> j"
  shows "settled_upto j (updateStep sid s xs)"
  unfolding settled_upto_def length_updateStep
proof (intro allI impI)
  fix i
  assume i: "i < length xs"
  from assms(1) i have later: "k < i \<Longrightarrow> step_status (xs ! i) = Pending"
    by (simp add: settled_upto_def)
  from i assms(3) later
  show "(i < j \<longrightarrow> step_status (updateStep sid s xs ! i) = Completed) \<and>
        (j < i \<longrightarrow> step_status (updateStep sid s xs ! i) = Pending)"
    by (simp add: nth_updateStep [OF assms(2)])
qed

lemma apply_updates_Cons:
  "apply_updates ((sid, s) # calls) xs = apply_updates calls (updateStep sid s xs)"
  by (simp add: apply_updates_def)

lemma length_apply_updates: "length (apply_updates calls xs) = length xs"
proof (induction calls arbitrary: xs)
  case Nil
  show ?case by (simp add: apply_updates_def)
next
  case (Cons c calls)
  obtain sid s where c: "c = (sid, s)"
    by (cases c)
  show ?case
    by (simp add: c apply_updates_Cons Cons.IH length_updateStep)
qed

lemma settled_initial: "settled_upto 0 initial_steps"
proof -
  have "\<forall>x\<in>set initial_steps. step_status x = Pending"
    by (simp add: initial_steps_def)
  then show ?thesis
    by (simp add: settled_upto_def)
qed

lemma settled_one_active:
  assumes "settled_upto k xs" and "i < length xs" and "j < length xs"
    and "step_status (xs ! i) = Active" and "step_status (xs ! j) = Active"
  shows "i = j"
proof -
  have "n = k" if "n < length xs" and "step_status (xs ! n) = Active" for n
  proof (rule ccontr)
    assume "n \<noteq> k"
    then have "n < k \<or> k < n"
      by arith
    with assms(1) that show False
      by (auto simp: settled_upto_def)
  qed
  from this [OF assms(2,4)] this [OF assms(3,5)] show ?thesis
    by simp
qed

lemma settled_prefix_completed:
  assumes "settled_upto k xs" and "j < length xs" and "step_status (xs ! j) \<noteq> Pending"
    and "i < j"
  shows "step_status (xs ! i) = Completed"
proof -
  from assms(1,2,3) have "\<not> k < j"
    by (auto simp: settled_upto_def)
  with assms(4) have "i < k"
    by arith
  with assms(1,2,4) show ?thesis
    by (simp add: settled_upto_def)
qed

lemma in_order_updateStep: "in_order m (updateStep sid s xs) calls = in_order m xs calls"
proof (induction calls arbitrary: m)
  case Nil
  show ?case by simp
next
  case (Cons c calls)
  obtain t u where c: "c = (t, u)"
    by (cases c)
  show ?case
    by (simp add: c findIndex_updateStep Cons.IH split: option.splits)
qed

lemma updateStep_completed_again:
  assumes "settled_upto m xs" and "findIndex (\<lambda>x. step_id x = sid) xs = Some j" and "j < m"
  shows "updateStep sid Completed xs = xs"
proof (rule nth_equalityI)
  show "length (updateStep sid Completed xs) = length xs"
    by (rule length_updateStep)
next
  fix i
  assume "i < length (updateStep sid Completed xs)"
  then have i: "i < length xs"
    by (simp add: length_updateStep)
  have "step_status (xs ! i) = Completed" if "i \<le> j"
    using assms(1,3) i that by (simp add: settled_upto_def)
  then show "updateStep sid Completed xs ! i = xs ! i"
    using i by (auto simp: nth_updateStep [OF assms(2)] completed_update_same)
qed

lemma settled_in_order:
  assumes "settled_upto m xs" and "in_order m xs calls"
  shows "\<exists>k. settled_upto k (apply_updates calls xs)"
  using assms
proof (induction calls arbitrary: m xs)
  case Nil
  then show ?case
    by (auto simp: apply_updates_def)
next
  case (Cons c calls)
  obtain sid s where c: "c = (sid, s)"
    by (cases c)
  show ?case
  proof (cases "findIndex (\<lambda>x. step_id x = sid) xs")
    case None
    then have same: "updateStep sid s xs = xs"
      by (rule updateStep_unknown)
    from Cons.prems(2) None have "in_order m xs calls"
      by (simp add: c)
    from Cons.IH [OF Cons.prems(1) this] show ?thesis
      by (simp add: c apply_updates_Cons same)
  next
    case (Some j)
    from Cons.prems(2) Some have ok: "s = Completed \<or> m \<le> j"
      and rest: "in_order (max m j) (updateStep sid s xs) calls"
      by (simp_all add: c in_order_updateStep)
    have "settled_upto (max m j) (updateStep sid s xs)"
    proof (cases "m \<le> j")
      case True
      with settled_updateStep [OF Cons.prems(1) Some True] show ?thesis
        by (simp add: max_def)
    next
      case False
      with ok have "s = Completed" and "j < m"
        by auto
      with updateStep_completed_again [OF Cons.prems(1) Some] Cons.prems(1) show ?thesis
        by (simp add: max_def)
    qed
    from Cons.IH [OF this rest] show ?thesis
      by (simp add: c apply_updates_Cons)
  qed
qed

text \<open>
  C8, as the spec states it, fails: \<^verbatim>\<open>updateStep\<close> completes the steps before the one it
  finds and leaves the steps after it as they are. From the all-pending list,
  \<^verbatim>\<open>updateStep('analyze_risk', 'active')\<close> followed by
  \<^verbatim>\<open>updateStep('fetch_enviro_data', 'active')\<close> leaves two active steps, the first of them
  before an active step and not completed.
\<close>

theorem out_of_order_calls_leave_two_active_steps:
  "map step_status
     (apply_updates [(''analyze_risk'', Active), (''fetch_enviro_data'', Active)] initial_steps)
   = [Active, Active, Pending, Pending]"
  by code_simp

text \<open>
  C8, amended. For every step list that a sequence of \<^verbatim>\<open>updateStep\<close> calls produces from
  the all-pending initial list, when every call that finds its step at an index below
  that of a step found by an earlier call writes \<^verbatim>\<open>completed\<close> (no \<^verbatim>\<open>step_start\<close> comes
  for a step before one already named): at most one step is active, and every step at
  an index before an active or completed step is completed.
  Calls that write \<^verbatim>\<open>completed\<close> may come late and in any order, and so may calls with
  an unknown id. The witness is the late \<^verbatim>\<open>step_complete\<close> of the spec: \<^verbatim>\<open>step_start\<close> for
  \<^verbatim>\<open>fetch_enviro_data\<close>, \<^verbatim>\<open>step_start\<close> for \<^verbatim>\<open>analyze_risk\<close>, then \<^verbatim>\<open>step_complete\<close> for
  \<^verbatim>\<open>fetch_enviro_data\<close>.
\<close>

theorem ordered_calls_keep_one_active_and_completed_prefix:
  assumes "in_order 0 initial_steps calls"
  shows "length (apply_updates calls initial_steps) = 4 \<and>
         (\<forall>i<4. \<forall>j<4.
            step_status (apply_updates calls initial_steps ! i) = Active \<and>
            step_status (apply_updates calls initial_steps ! j) = Active \<longrightarrow> i = j) \<and>
         (\<forall>j<4. step_status (apply_updates calls initial_steps ! j) \<noteq> Pending \<longrightarrow>
            (\<forall>i<j. step_status (apply_updates calls initial_steps ! i) = Completed))"
proof -
  let ?ys = "apply_updates calls initial_steps"
  have len: "length ?ys = 4"
    by (simp add: length_apply_updates initial_steps_def)
  from settled_in_order [OF settled_initial assms]
  obtain k where k: "settled_upto k ?ys"
    by auto
  have "i = j" if "i < 4" "j < 4" "step_status (?ys ! i) = Active" "step_status (?ys ! j) = Active"
    for i j
    using settled_one_active [OF k] that len by simp
  moreover have "step_status (?ys ! i) = Completed"
    if "j < 4" "step_status (?ys ! j) \<noteq> Pending" "i < j" for i j
    using settled_prefix_completed [OF k] that len by simp
  ultimately show ?thesis
    using len by blast
qed

theorem ordered_calls_keep_one_active_and_completed_prefix_witness:
  "in_order 0 initial_steps
     [(''fetch_enviro_data'', Active), (''analyze_risk'', Active), (''warm_up'', Active),
      (''fetch_enviro_data'', Completed)] \<and>
   step_status
     (apply_updates
        [(''fetch_enviro_data'', Active), (''analyze_risk'', Active), (''warm_up'', Active),
         (''fetch_enviro_data'', Completed)] initial_steps ! 1) = Active \<and>
   step_status
     (apply_updates
        [(''fetch_enviro_data'', Active), (''analyze_risk'', Active), (''warm_up'', Active),
         (''fetch_enviro_data'', Completed)] initial_steps ! 0) = Completed \<and>
   step_status
     (apply_updates
        [(''fetch_enviro_data'', Active), (''analyze_risk'', Active), (''warm_up'', Active),
         (''fetch_enviro_data'', Completed)] initial_steps ! 2) \<noteq> Active"
proof -
  let ?calls = "[(''fetch_enviro_data'', Active), (''analyze_risk'', Active), (''warm_up'', Active),
                 (''fetch_enviro_data'', Completed)]"
  let ?ys = "apply_updates ?calls initial_steps"
  have ordered: "in_order 0 initial_steps ?calls"
    by (simp add: initial_findIndex)
  have active: "step_status (?ys ! 1) = Active"
    by code_simp
  note inv = ordered_calls_keep_one_active_and_completed_prefix [OF ordered]
  from inv have one: "i = j"
    if "i < 4" "j < 4" "step_status (?ys ! i) = Active" "step_status (?ys ! j) = Active" for i j
    using that by blast
  from inv have prefix: "step_status (?ys ! i) = Completed"
    if "j < 4" "step_status (?ys ! j) \<noteq> Pending" "i < j" for i j
    using that by blast
  from prefix [of 1 0] active have first: "step_status (?ys ! 0) = Completed"
    by simp
  have other: "step_status (?ys ! 2) \<noteq> Active"
  proof
    assume "step_status (?ys ! 2) = Active"
    from one [of 2 1] this active show False
      by simp
  qed
  from ordered active first other show ?thesis
    by (intro conjI)
qed

text \<open>
  The order asked of the calls is the least that will do for the calls the handler
  makes (they write active or completed): when a sequence of such calls is not in that
  order, the list reached at one of its calls has a step that is not completed
  before a step that is active or completed.
\<close>

lemma out_of_order_breaks_completed_before:
  assumes "settled_upto m xs"
    and "m = 0 \<or> (m < length xs \<and> step_status (xs ! m) \<noteq> Pending)"
    and "\<forall>c\<in>set calls. snd c \<noteq> Pending"
    and "\<not> in_order m xs calls"
  shows "\<exists>n\<le>length calls. \<not> completed_before (apply_updates (take n calls) xs)"
  using assms
proof (induction calls arbitrary: m xs)
  case Nil
  then show ?case by simp
next
  case (Cons c calls)
  obtain sid s where c: "c = (sid, s)"
    by (cases c)
  from Cons.prems(3) have s: "s \<noteq> Pending" and later: "\<forall>c\<in>set calls. snd c \<noteq> Pending"
    by (simp_all add: c)
  have step: "\<exists>n\<le>length (c # calls). \<not> completed_before (apply_updates (take n (c # calls)) xs)"
    if "\<exists>n\<le>length calls. \<not> completed_before (apply_updates (take n calls) (updateStep sid s xs))"
  proof -
    from that obtain n where n: "n \<le> length calls"
      and bad: "\<not> completed_before (apply_updates (take n calls) (updateStep sid s xs))"
      by blast
    from bad have "\<not> completed_before (apply_updates (take (Suc n) (c # calls)) xs)"
      by (simp add: c apply_updates_Cons)
    with n show ?thesis
      by (intro exI [of _ "Suc n"]) simp
  qed
  show ?case
  proof (cases "findIndex (\<lambda>x. step_id x = sid) xs")
    case None
    then have same: "updateStep sid s xs = xs"
      by (rule updateStep_unknown)
    from Cons.prems(4) None have "\<not> in_order m xs calls"
      by (simp add: c)
    from Cons.IH [OF Cons.prems(1,2) later this] show ?thesis
      by (intro step) (simp add: same)
  next
    case (Some j)
    from findIndex_Some [OF Some] have j: "j < length xs"
      by simp
    show ?thesis
    proof (cases "s = Completed \<or> m \<le> j")
      case True
      with Cons.prems(4) Some have rest: "\<not> in_order (max m j) (updateStep sid s xs) calls"
        by (simp add: c in_order_updateStep)
      have settled: "settled_upto (max m j) (updateStep sid s xs)"
        and hit: "max m j = 0 \<or> (max m j < length (updateStep sid s xs) \<and>
                   step_status (updateStep sid s xs ! max m j) \<noteq> Pending)"
      proof -
        show "settled_upto (max m j) (updateStep sid s xs)"
        proof (cases "m \<le> j")
          case True
          with settled_updateStep [OF Cons.prems(1) Some True] show ?thesis
            by (simp add: max_def)
        next
          case False
          with \<open>s = Completed \<or> m \<le> j\<close> have "s = Completed" and "j < m"
            by auto
          with updateStep_completed_again [OF Cons.prems(1) Some] Cons.prems(1) show ?thesis
            by (simp add: max_def)
        qed
        show "max m j = 0 \<or> (max m j < length (updateStep sid s xs) \<and>
                   step_status (updateStep sid s xs ! max m j) \<noteq> Pending)"
        proof (cases "m \<le> j")
          case True
          with j s show ?thesis
            by (simp add: max_def length_updateStep nth_updateStep [OF Some])
        next
          case False
          with \<open>s = Completed \<or> m \<le> j\<close> have "s = Completed" and "j < m"
            by auto
          with updateStep_completed_again [OF Cons.prems(1) Some] Cons.prems(2) show ?thesis
            by (simp add: max_def)
        qed
      qed
      from Cons.IH [OF settled hit later rest] show ?thesis
        by (rule step)
    next
      case False
      with s have active: "s = Active" and below: "j < m"
        by (cases s; simp)+
      with Cons.prems(2) have m: "m < length xs" and hit: "step_status (xs ! m) \<noteq> Pending"
        by auto
      let ?ys = "updateStep sid Active xs"
      have "step_status (?ys ! m) \<noteq> Pending"
        using m below hit by (simp add: nth_updateStep [OF Some])
      moreover have "step_status (?ys ! j) = Active"
        using j by (simp add: nth_updateStep [OF Some])
      ultimately have "\<not> completed_before ?ys"
      proof -
        assume top: "step_status (?ys ! m) \<noteq> Pending" and low: "step_status (?ys ! j) = Active"
        show ?thesis
        proof
          assume "completed_before ?ys"
          with m top below have "step_status (?ys ! j) = Completed"
            by (simp add: completed_before_def length_updateStep)
          with low show False
            by simp
        qed
      qed
      then have "\<not> completed_before (apply_updates (take 1 (c # calls)) xs)"
        by (simp add: c active apply_updates_def)
      then show ?thesis
        by (intro exI [of _ 1]) simp
    qed
  qed
qed

lemma in_order_is_needed:
  assumes "\<forall>c\<in>set calls. snd c \<noteq> Pending" and "\<not> in_order 0 initial_steps calls"
  shows "\<exists>n\<le>length calls. \<not> completed_before (apply_updates (take n calls) initial_steps)"
  using out_of_order_breaks_completed_before [OF settled_initial _ assms] by simp

section \<open>The reset at the start of a run\<close>

text \<open>
  C9. \<^verbatim>\<open>resetSteps\<close> leaves the four steps \<^verbatim>\<open>fetch_enviro_data\<close>, \<^verbatim>\<open>analyze_risk\<close>,
  \<^verbatim>\<open>generate_advice\<close>, \<^verbatim>\<open>done\<close> in this order, all pending, and \<^verbatim>\<open>fetchRiskData\<close> resets
  before it reads any event: when the response is OK and has a body, the decode loop
  starts from the state whose step list is this initial one, whatever the list was when
  the run started; on every other path no event is read and the run ends with the
  initial list.
\<close>

theorem new_run_resets_steps:
  "map step_id (steps (resetSteps st)) =
     [''fetch_enviro_data'', ''analyze_risk'', ''generate_advice'', ''done''] \<and>
   map step_status (steps (resetSteps st)) = [Pending, Pending, Pending, Pending] \<and>
   fetchRiskData P loc als (st\<lparr>steps := xs\<rparr>) = fetchRiskData P loc als st \<and>
   fetchRiskData P loc als (resetSteps st) = fetchRiskData P loc als st \<and>
   (trim loc \<noteq> [] \<and> als \<noteq> [] \<and>
    fetch P \<lparr>location = trim loc, allergies = als\<rparr> = Responded r \<and>
    ok r \<and> body r = Some (chunks, e) \<longrightarrow>
      fetchRiskData P loc als st =
        (case read_loop P (decoder_new P) [] chunks e
                (st\<lparr>loading := True, error := None, isStreaming := True,
                    steps := initial_steps\<rparr>) of
           (st', None) \<Rightarrow> (st', [\<lparr>location = trim loc, allergies = als\<rparr>])
         | (st', Some err) \<Rightarrow> (catch_err err st', [\<lparr>location = trim loc, allergies = als\<rparr>]))) \<and>
   (trim loc = [] \<or> als = [] \<or>
    (\<exists>err. fetch P \<lparr>location = trim loc, allergies = als\<rparr> = Rejected err) \<or>
    (\<exists>r'. fetch P \<lparr>location = trim loc, allergies = als\<rparr> = Responded r' \<and>
          (\<not> ok r' \<or> body r' = None)) \<longrightarrow>
      steps (fst (fetchRiskData P loc als st)) = initial_steps)"
proof -
  have empty: "trim [] = []"
    by (simp add: trim_def)
  have "fetchRiskData P loc als st =
        (case read_loop P (decoder_new P) [] chunks e
                (st\<lparr>loading := True, error := None, isStreaming := True,
                    steps := initial_steps\<rparr>) of
           (st', None) \<Rightarrow> (st', [\<lparr>location = trim loc, allergies = als\<rparr>])
         | (st', Some err) \<Rightarrow> (catch_err err st', [\<lparr>location = trim loc, allergies = als\<rparr>]))"
    if "trim loc \<noteq> []" "als \<noteq> []"
      "fetch P \<lparr>location = trim loc, allergies = als\<rparr> = Responded r"
      "ok r" "body r = Some (chunks, e)"
  proof -
    from that(1) empty have "loc \<noteq> []"
      by auto
    with that show ?thesis
      by (simp add: fetchRiskData_def resetSteps_def Let_def)
  qed
  moreover have "steps (fst (fetchRiskData P loc als st)) = initial_steps"
    if "trim loc = [] \<or> als = [] \<or>
        (\<exists>err. fetch P \<lparr>location = trim loc, allergies = als\<rparr> = Rejected err) \<or>
        (\<exists>r'. fetch P \<lparr>location = trim loc, allergies = als\<rparr> = Responded r' \<and>
          (\<not> ok r' \<or> body r' = None))"
    using that empty
    by (auto simp: fetchRiskData_def resetSteps_def catch_err_def Let_def)
  ultimately show ?thesis
    by (simp add: resetSteps_def initial_steps_def fetchRiskData_def)
qed

theorem new_run_resets_steps_witness:
  \<open>trim ''Boston, MA'' \<noteq> [] \<and> [''pollen''] \<noteq> [] \<and>
   fetch (sample_platform ''data: {"type": "step_start", "step": "analyze_risk"}\<newline>\<newline>'')
     \<lparr>location = trim ''Boston, MA'', allergies = [''pollen'']\<rparr> =
     Responded \<lparr>ok = True, statusText = ''OK'',
       body = Some ([map of_char ''data: {"type": "step_start", "step": "analyze_risk"}\<newline>\<newline>''],
                    Done)\<rparr> \<and>
   map step_status (steps (Home_initial\<lparr>steps := updateStep ''done'' Completed initial_steps\<rparr>)) =
     [Completed, Completed, Completed, Completed] \<and>
   fetchRiskData (sample_platform ''data: {"type": "step_start", "step": "analyze_risk"}\<newline>\<newline>'')
     ''Boston, MA'' [''pollen'']
     (Home_initial\<lparr>steps := updateStep ''done'' Completed initial_steps\<rparr>) =
     (Home_initial\<lparr>steps := updateStep ''analyze_risk'' Active initial_steps, loading := True,
                     isStreaming := True\<rparr>,
      [\<lparr>location = trim ''Boston, MA'', allergies = [''pollen'']\<rparr>]) \<and>
   map step_status (updateStep ''analyze_risk'' Active initial_steps) =
     [Completed, Active, Pending, Pending] \<and>
   trim '' '' = [] \<and>
   steps (fst (fetchRiskData (sample_platform []) '' '' [''pollen'']
     (Home_initial\<lparr>steps := updateStep ''done'' Completed initial_steps\<rparr>))) = initial_steps\<close>
proof -
  let ?stream = \<open>''data: {"type": "step_start", "step": "analyze_risk"}\<newline>\<newline>''\<close>
  let ?P = "sample_platform ?stream"
  let ?req = "\<lparr>location = trim ''Boston, MA'', allergies = [''pollen'']\<rparr>"
  let ?r = "\<lparr>ok = True, statusText = ''OK'', body = Some ([map of_char ?stream], Done)\<rparr>"
  let ?st = "Home_initial\<lparr>steps := updateStep ''done'' Completed initial_steps\<rparr>"
  have loc: "trim ''Boston, MA'' \<noteq> []"
    by code_simp
  have als: "[''pollen''] \<noteq> []"
    by simp
  have resp: "fetch ?P ?req = Responded ?r"
    by (simp add: sample_platform_def)
  have before: "map step_status (steps ?st) = [Completed, Completed, Completed, Completed]"
    by code_simp
  have after: "map step_status (updateStep ''analyze_risk'' Active initial_steps) =
     [Completed, Active, Pending, Pending]"
    by code_simp
  have blank: "trim '' '' = []"
    by code_simp
  have loop: "read_loop ?P (decoder_new ?P) [] [map of_char ?stream] Done
      (?st\<lparr>loading := True, error := None, isStreaming := True, steps := initial_steps\<rparr>) =
      (Home_initial\<lparr>steps := updateStep ''analyze_risk'' Active initial_steps, loading := True,
                     isStreaming := True\<rparr>, None)"
    by code_simp
  have hyps: "trim ''Boston, MA'' \<noteq> [] \<and> [''pollen''] \<noteq> [] \<and> fetch ?P ?req = Responded ?r \<and>
      ok ?r \<and> body ?r = Some ([map of_char ?stream], Done)"
    using loc als resp by simp
  note start = new_run_resets_steps [THEN conjunct2, THEN conjunct2, THEN conjunct2, THEN conjunct2,
    THEN conjunct1, THEN mp]
  note other = new_run_resets_steps [THEN conjunct2, THEN conjunct2, THEN conjunct2, THEN conjunct2,
    THEN conjunct2, THEN mp]
  have "fetchRiskData ?P ''Boston, MA'' [''pollen''] ?st =
      (case read_loop ?P (decoder_new ?P) [] [map of_char ?stream] Done
              (?st\<lparr>loading := True, error := None, isStreaming := True, steps := initial_steps\<rparr>) of
         (st', None) \<Rightarrow> (st', [?req])
       | (st', Some err) \<Rightarrow> (catch_err err st', [?req]))"
    by (rule start) (rule hyps)
  then have run: "fetchRiskData ?P ''Boston, MA'' [''pollen''] ?st =
      (Home_initial\<lparr>steps := updateStep ''analyze_risk'' Active initial_steps, loading := True,
                     isStreaming := True\<rparr>, [?req])"
    by (simp only: loop prod.case option.case)
  have none: "steps (fst (fetchRiskData (sample_platform []) '' '' [''pollen''] ?st)) = initial_steps"
    by (rule other) (simp add: blank)
  from loc als resp before run after blank none show ?thesis
    by (intro conjI)
qed

section \<open>Records that throw inside the decode loop\<close>

text \<open>
  The outer \<^verbatim>\<open>catch\<close> does fail the run when a throw reaches it, as the one for a
  response that is not OK does.
\<close>

lemma not_ok_response_fails_run:
  assumes "trim loc \<noteq> []" and "als \<noteq> []"
    and "fetch P \<lparr>location = trim loc, allergies = als\<rparr> = Responded r" and "\<not> ok r"
  shows "fetchRiskData P loc als st =
           (st\<lparr>steps := initial_steps, loading := False,
               error := Some (''API error: '' @ statusText r), isStreaming := False\<rparr>,
            [\<lparr>location = trim loc, allergies = als\<rparr>])"
proof -
  from assms(1) have "loc \<noteq> []"
    by (auto simp: trim_def)
  with assms show ?thesis
    by (simp add: fetchRiskData_def resetSteps_def catch_err_def Let_def)
qed

text \<open>
  C1. The spec has an \<^verbatim>\<open>error{message}\<close> event end the run as failed. The code throws
  \<^verbatim>\<open>new Error(data.message)\<close> inside the inner \<^verbatim>\<open>try\<close>, whose own \<^verbatim>\<open>catch (parseError)\<close>
  takes it and logs it; it never reaches the outer \<^verbatim>\<open>catch\<close>, which is the one that
  stores the message and clears the flags. On a stream that carries one error event,
  the run ends with no error stored, still loading and still streaming; only the step
  list is as the claim says, untouched.
\<close>

theorem error_event_is_logged_not_stored:
  \<open>fetchRiskData (sample_platform ''data: {"type": "error", "message": "boom"}\<newline>\<newline>'')
      ''Boston, MA'' [''pollen''] Home_initial =
     (Home_initial\<lparr>loading := True, isStreaming := True,
                     console := [ThrownError (Some (JStr ''boom''))]\<rparr>,
      [\<lparr>location = ''Boston, MA'', allergies = [''pollen'']\<rparr>]) \<and>
   error (Home_initial\<lparr>loading := True, isStreaming := True,
                        console := [ThrownError (Some (JStr ''boom''))]\<rparr>) = None \<and>
   handle_data (JObj [(''type'', JStr ''error''), (''message'', JStr ''boom'')]) Home_initial =
     Inl (ThrownError (Some (JStr ''boom'')))\<close>
  by code_simp

section \<open>Invalid input\<close>

lemma dropWhile_all: "dropWhile p xs = [] \<longleftrightarrow> (\<forall>x\<in>set xs. p x)"
  by (induction xs) auto

lemma trim_empty: "trim s = [] \<longleftrightarrow> (\<forall>c\<in>set s. is_white_space c)"
proof
  assume "trim s = []"
  then have all: "\<forall>c\<in>set (dropWhile is_white_space s). is_white_space c"
    by (simp add: trim_def dropWhile_all)
  have "dropWhile is_white_space s = []"
  proof (rule ccontr)
    assume ne: "dropWhile is_white_space s \<noteq> []"
    then have "\<not> is_white_space (hd (dropWhile is_white_space s))"
      by (rule hd_dropWhile)
    with all ne show False
      by simp
  qed
  then show "\<forall>c\<in>set s. is_white_space c"
    by (simp add: dropWhile_all)
next
  assume "\<forall>c\<in>set s. is_white_space c"
  then have d: "dropWhile is_white_space s = []"
    by (simp add: dropWhile_all)
  show "trim s = []"
    unfolding trim_def d by simp
qed

text \<open>
  C7, as the spec states it, fails for \<^verbatim>\<open>handleManualSubmit\<close>: when the form leaves no
  allergy it sets the error and returns without resetting the steps. After a run that
  a dropped connection ended with \<^verbatim>\<open>fetch_enviro_data\<close> completed and \<^verbatim>\<open>analyze_risk\<close>
  active, a submit with no allergy leaves these two steps as they are, not pending.
\<close>

theorem rejected_form_keeps_old_steps:
  \<open>fetchRiskData
     (interrupted_platform ''data: {"type": "step_start", "step": "analyze_risk"}\<newline>\<newline>'')
     ''Boston, MA'' [''pollen''] Home_initial =
     (Home_initial\<lparr>steps := updateStep ''analyze_risk'' Active initial_steps,
                     error := Some ''network error''\<rparr>,
      [\<lparr>location = ''Boston, MA'', allergies = [''pollen'']\<rparr>]) \<and>
   handleManualSubmit (sample_platform []) ''Boston, MA'' '' , ''
     (Home_initial\<lparr>steps := updateStep ''analyze_risk'' Active initial_steps,
                     error := Some ''network error''\<rparr>) =
     (Home_initial\<lparr>steps := updateStep ''analyze_risk'' Active initial_steps,
                     error := Some ''Please enter at least one allergy''\<rparr>, []) \<and>
   map step_status (updateStep ''analyze_risk'' Active initial_steps) =
     [Completed, Active, Pending, Pending]\<close>
  by code_simp

text \<open>
  C7, amended. Invalid input fails at once, with an error message and before any step
  executes: no request is sent, so no event is ever read. When \<^verbatim>\<open>fetchRiskData\<close> rejects
  its input (the location empty or all white space, or the allergy list empty) it ends
  in its \<^verbatim>\<open>catch\<close> before \<^verbatim>\<open>fetch\<close> is called, with the flags cleared and the step list
  reset, every step pending. When \<^verbatim>\<open>handleManualSubmit\<close> rejects the form (no allergy
  left after the split) no run starts: it stores its message and leaves the step list
  and the flags exactly as they were, so the steps are all pending only if they were
  before.
\<close>

theorem invalid_input_fails_before_any_request:
  assumes "loc = [] \<or> (\<forall>c\<in>set loc. is_white_space c) \<or> als = []"
  shows "fetchRiskData P loc als st =
           (st\<lparr>steps := initial_steps, loading := False,
               error := Some (if trim loc = [] then ''Please enter a location''
                              else ''Please enter allergies''),
               isStreaming := False\<rparr>, []) \<and>
         map step_status (steps (fst (fetchRiskData P loc als st))) =
           [Pending, Pending, Pending, Pending] \<and>
         (filter (\<lambda>a. length a > 0) (map trim (split_on (CHR '','') manualAllergies)) = [] \<longrightarrow>
            handleManualSubmit P manualLocation manualAllergies st =
              (st\<lparr>error := Some ''Please enter at least one allergy''\<rparr>, []) \<and>
            steps (fst (handleManualSubmit P manualLocation manualAllergies st)) = steps st)"
proof -
  from assms have bad: "trim loc = [] \<or> als = []"
    by (auto simp: trim_empty)
  have run: "fetchRiskData P loc als st =
           (st\<lparr>steps := initial_steps, loading := False,
               error := Some (if trim loc = [] then ''Please enter a location''
                              else ''Please enter allergies''),
               isStreaming := False\<rparr>, [])"
  proof -
    have "trim [] = []"
      by (simp add: trim_def)
    with bad show ?thesis
      by (auto simp: fetchRiskData_def resetSteps_def catch_err_def Let_def)
  qed
  have "map step_status (steps (fst (fetchRiskData P loc als st))) =
           [Pending, Pending, Pending, Pending]"
    by (simp add: run initial_steps_def)
  with run show ?thesis
    by (simp add: handleManualSubmit_def)
qed

theorem invalid_input_fails_before_any_request_witness:
  "('' '' = [] \<or> is_white_space (CHR '' '') \<or> [''pollen''] = []) \<and>
   map step_status
     (steps (Home_initial\<lparr>steps := updateStep ''analyze_risk'' Active initial_steps,
                            error := Some ''network error''\<rparr>)) =
     [Completed, Active, Pending, Pending] \<and>
   fetchRiskData (sample_platform []) '' '' [''pollen'']
     (Home_initial\<lparr>steps := updateStep ''analyze_risk'' Active initial_steps,
                     error := Some ''network error''\<rparr>) =
     (Home_initial\<lparr>error := Some ''Please enter a location''\<rparr>, []) \<and>
   filter (\<lambda>a. length a > 0) (map trim (split_on (CHR '','') '' , '')) = [] \<and>
   handleManualSubmit (sample_platform []) ''Boston, MA'' '' , ''
     (Home_initial\<lparr>steps := updateStep ''analyze_risk'' Active initial_steps,
                     error := Some ''network error''\<rparr>) =
     (Home_initial\<lparr>steps := updateStep ''analyze_risk'' Active initial_steps,
                     error := Some ''Please enter at least one allergy''\<rparr>, [])"
proof -
  let ?st = "Home_initial\<lparr>steps := updateStep ''analyze_risk'' Active initial_steps,
                            error := Some ''network error''\<rparr>"
  have ws: "is_white_space (CHR '' '')"
    by (simp add: is_white_space_def)
  then have bad: "'' '' = [] \<or> (\<forall>c\<in>set '' ''. is_white_space c) \<or> [''pollen''] = []"
    by simp
  have shown: "'' '' = [] \<or> is_white_space (CHR '' '') \<or> [''pollen''] = []"
    using ws by simp
  have old: "map step_status (steps ?st) = [Completed, Active, Pending, Pending]"
    by code_simp
  have none: "filter (\<lambda>a. length a > 0) (map trim (split_on (CHR '','') '' , '')) = []"
    by code_simp
  have blank: "trim '' '' = []"
    using ws by (simp add: trim_empty)
  note inst = invalid_input_fails_before_any_request [OF bad, of "sample_platform []" ?st "'' , ''"
      "''Boston, MA''"]
  from inst blank
  have run: "fetchRiskData (sample_platform []) '' '' [''pollen''] ?st =
      (Home_initial\<lparr>error := Some ''Please enter a location''\<rparr>, [])"
    by (simp add: Home_initial_def)
  from inst none
  have form: "handleManualSubmit (sample_platform []) ''Boston, MA'' '' , '' ?st =
      (Home_initial\<lparr>steps := updateStep ''analyze_risk'' Active initial_steps,
                      error := Some ''Please enter at least one allergy''\<rparr>, [])"
    by (simp add: Home_initial_def)
  from shown old run none form show ?thesis
    by (intro conjI)
qed

section \<open>Chunk boundaries\<close>

lemma split_on_nonempty: "split_on c xs \<noteq> []"
  by (induction xs) (auto split: list.splits)

lemma split_on_no_separator: "c \<notin> set xs \<Longrightarrow> split_on c xs = [xs]"
  by (induction xs) auto

lemma last_split_on_no_separator: "c \<notin> set (last (split_on c xs))"
proof (induction xs)
  case Nil
  show ?case by simp
next
  case (Cons x xs)
  obtain p ps where s: "split_on c xs = p # ps"
    using split_on_nonempty [of c xs] by (cases "split_on c xs") auto
  with Cons show ?case
    by (cases ps) auto
qed

lemma split_on_append:
  "split_on c (xs @ ys) =
     butlast (split_on c xs) @ split_on c (last (split_on c xs) @ ys)"
proof (induction xs)
  case Nil
  show ?case by simp
next
  case (Cons x xs)
  obtain p ps where s: "split_on c xs = p # ps"
    using split_on_nonempty [of c xs] by (cases "split_on c xs") auto
  show ?case
  proof (cases "x = c")
    case True
    with Cons s show ?thesis
      by simp
  next
    case False
    show ?thesis
    proof (cases ps)
      case Nil
      with Cons s False show ?thesis
        by simp
    next
      case (Cons q qs)
      with Cons.IH s False show ?thesis
        by simp
    qed
  qed
qed

lemma feed_append:
  "feed P buffer (t1 @ t2) st =
     (case feed P buffer t1 st of (buffer1, st1) \<Rightarrow> feed P buffer1 t2 st1)"
proof -
  let ?S = "split_on (CHR 0x0A) (buffer @ t1)"
  let ?T = "split_on (CHR 0x0A) (last ?S @ t2)"
  have whole: "split_on (CHR 0x0A) (buffer @ t1 @ t2) = butlast ?S @ ?T"
    using split_on_append [of "CHR 0x0A" "buffer @ t1" t2] by simp
  have T: "?T \<noteq> []"
    by (rule split_on_nonempty)
  from T have "last (butlast ?S @ ?T) = last ?T"
    by simp
  moreover from T have "butlast (butlast ?S @ ?T) = butlast ?S @ butlast ?T"
    by (simp add: butlast_append)
  ultimately show ?thesis
    by (simp add: feed_def whole)
qed

lemma feed_no_text:
  "CHR 0x0A \<notin> set buffer \<Longrightarrow> feed P buffer [] st = (buffer, st)"
  by (simp add: feed_def split_on_no_separator)

lemma feed_buffer: "CHR 0x0A \<notin> set (fst (feed P buffer text st))"
  by (simp add: feed_def last_split_on_no_separator)

lemma read_loop_Nil: "read_loop P d buffer [] e st = (st, thrown e)"
  by (cases e) (simp_all add: thrown_def)

lemma read_loop_Cons:
  "read_loop P d buffer (chunk # rest) e st =
     read_loop P (snd (text_decode P d chunk))
       (fst (feed P buffer (fst (text_decode P d chunk)) st)) rest e
       (snd (feed P buffer (fst (text_decode P d chunk)) st))"
  by (simp add: feed_def Let_def split: prod.splits)

lemma streaming_Nil: "streaming P \<Longrightarrow> text_decode P d [] = ([], d)"
  by (simp add: streaming_def)

lemma streaming_append:
  "streaming P \<Longrightarrow>
   text_decode P d (a @ b) =
     (fst (text_decode P d a) @ fst (text_decode P (snd (text_decode P d a)) b),
      snd (text_decode P (snd (text_decode P d a)) b))"
  by (simp add: streaming_def split: prod.splits)

lemma read_loop_whole:
  assumes "streaming P" and "CHR 0x0A \<notin> set buffer"
  shows "read_loop P d buffer chunks e st =
           (snd (feed P buffer (fst (text_decode P d (concat chunks))) st), thrown e)"
  using assms(2)
proof (induction chunks arbitrary: d buffer st)
  case Nil
  then show ?case
    by (simp add: read_loop_Nil streaming_Nil [OF assms(1)] feed_no_text)
next
  case (Cons chunk rest)
  let ?t1 = "fst (text_decode P d chunk)"
  let ?d1 = "snd (text_decode P d chunk)"
  let ?b1 = "fst (feed P buffer ?t1 st)"
  let ?s1 = "snd (feed P buffer ?t1 st)"
  have "read_loop P d buffer (chunk # rest) e st = read_loop P ?d1 ?b1 rest e ?s1"
    by (rule read_loop_Cons)
  also have "\<dots> = (snd (feed P ?b1 (fst (text_decode P ?d1 (concat rest))) ?s1), thrown e)"
    by (rule Cons.IH) (rule feed_buffer)
  also have "feed P ?b1 (fst (text_decode P ?d1 (concat rest))) ?s1 =
      feed P buffer (?t1 @ fst (text_decode P ?d1 (concat rest))) st"
    by (simp add: feed_append split: prod.splits)
  also have "?t1 @ fst (text_decode P ?d1 (concat rest)) =
      fst (text_decode P d (concat (chunk # rest)))"
    by (simp add: streaming_append [OF assms(1)])
  finally show ?case .
qed

text \<open>
  C4. The decode loop does not depend on where the chunks are cut: with a decoder that
  decodes as a stream, any two ways of cutting the same bytes into chunks (all at once,
  byte by byte, or anywhere between) leave the same state, that is the same step
  statuses, the same stored result, the same error and flags and the same console, and
  the same outcome of the reads.
\<close>

theorem chunk_boundaries_do_not_matter:
  assumes "streaming P" and "concat chunks = concat chunks'"
  shows "read_loop P (decoder_new P) [] chunks e st =
         read_loop P (decoder_new P) [] chunks' e st \<and>
         read_loop P (decoder_new P) [] chunks e st =
         read_loop P (decoder_new P) [] [concat chunks] e st \<and>
         read_loop P (decoder_new P) [] chunks e st =
         read_loop P (decoder_new P) [] (map (\<lambda>b. [b]) (concat chunks)) e st"
proof -
  have whole: "read_loop P (decoder_new P) [] cs e st =
      (snd (feed P [] (fst (text_decode P (decoder_new P) (concat cs))) st), thrown e)" for cs
    by (rule read_loop_whole [OF assms(1)]) simp
  have bytes: "concat (map (\<lambda>b. [b]) xs) = xs" for xs :: "byte list"
    by (induction xs) simp_all
  have "read_loop P (decoder_new P) [] chunks e st = read_loop P (decoder_new P) [] chunks' e st"
    by (simp only: whole [of chunks] whole [of chunks'] assms(2))
  moreover have "read_loop P (decoder_new P) [] chunks e st =
      read_loop P (decoder_new P) [] [concat chunks] e st"
    by (simp only: whole [of chunks] whole [of "[concat chunks]"] concat.simps append_Nil2)
  moreover have "read_loop P (decoder_new P) [] chunks e st =
      read_loop P (decoder_new P) [] (map (\<lambda>b. [b]) (concat chunks)) e st"
    by (simp only: whole [of chunks] whole [of "map (\<lambda>b. [b]) (concat chunks)"] bytes)
  ultimately show ?thesis
    by (intro conjI)
qed

theorem chunk_boundaries_do_not_matter_witness:
  \<open>streaming (sample_platform []) \<and>
   concat [map of_char ''data: {"type": "step_st'',
           map of_char ''art", "step": "analyze_risk"}\<newline>\<newline>da''] =
   concat [map of_char ''data: {"type": "step_start", "step": "analyze_risk"}\<newline>\<newline>da''
             :: byte list] \<and>
   read_loop (sample_platform []) (decoder_new (sample_platform [])) []
     [map of_char ''data: {"type": "step_st'',
      map of_char ''art", "step": "analyze_risk"}\<newline>\<newline>da''] Done Home_initial =
   read_loop (sample_platform []) (decoder_new (sample_platform [])) []
     [map of_char ''data: {"type": "step_start", "step": "analyze_risk"}\<newline>\<newline>da'']
     Done Home_initial \<and>
   read_loop (sample_platform []) (decoder_new (sample_platform [])) []
     [map of_char ''data: {"type": "step_start", "step": "analyze_risk"}\<newline>\<newline>da'']
     Done Home_initial =
   (Home_initial\<lparr>steps := updateStep ''analyze_risk'' Active initial_steps\<rparr>, None)\<close>
proof -
  let ?cut = \<open>[map of_char ''data: {"type": "step_st'',
               map of_char ''art", "step": "analyze_risk"}\<newline>\<newline>da''] :: byte list list\<close>
  let ?one = \<open>[map of_char ''data: {"type": "step_start", "step": "analyze_risk"}\<newline>\<newline>da'']
               :: byte list list\<close>
  have law: "streaming (sample_platform [])"
    by (simp add: streaming_def sample_platform_def)
  have same: "concat ?cut = concat ?one"
    by simp
  have run: "read_loop (sample_platform []) (decoder_new (sample_platform [])) [] ?one
      Done Home_initial =
      (Home_initial\<lparr>steps := updateStep ''analyze_risk'' Active initial_steps\<rparr>, None)"
    by code_simp
  from chunk_boundaries_do_not_matter [OF law same, of Done Home_initial]
  have cut: "read_loop (sample_platform []) (decoder_new (sample_platform [])) [] ?cut
      Done Home_initial =
      read_loop (sample_platform []) (decoder_new (sample_platform [])) [] ?one
      Done Home_initial"
    by (rule conjunct1)
  from law same cut run show ?thesis
    by (intro conjI)
qed

section \<open>Records that cannot be parsed\<close>

lemma read_loop_lines:
  "CHR 0x0A \<notin> set buffer \<Longrightarrow>
   read_loop P d buffer chunks e st =
     (snd (feed P buffer (decode_all P d chunks) st), thrown e)"
proof (induction chunks arbitrary: d buffer st)
  case Nil
  then show ?case
    by (simp add: read_loop_Nil feed_no_text)
next
  case (Cons chunk rest)
  let ?t1 = "fst (text_decode P d chunk)"
  let ?d1 = "snd (text_decode P d chunk)"
  let ?b1 = "fst (feed P buffer ?t1 st)"
  let ?s1 = "snd (feed P buffer ?t1 st)"
  have "read_loop P d buffer (chunk # rest) e st = read_loop P ?d1 ?b1 rest e ?s1"
    by (rule read_loop_Cons)
  also have "\<dots> = (snd (feed P ?b1 (decode_all P ?d1 rest) ?s1), thrown e)"
    by (rule Cons.IH) (rule feed_buffer)
  also have "feed P ?b1 (decode_all P ?d1 rest) ?s1 =
      feed P buffer (?t1 @ decode_all P ?d1 rest) st"
    by (simp add: feed_append split: prod.splits)
  also have "?t1 @ decode_all P ?d1 rest = decode_all P d (chunk # rest)"
    by (simp split: prod.splits)
  finally show ?case .
qed

text \<open>
  C5. A record whose payload \<^verbatim>\<open>JSON.parse\<close> rejects is logged and dropped. The turn of
  the loop for it returns the state it was given with one more console entry: the step
  list, the result, the error and both flags are as before. And the decode loop goes on:
  when the records of a body are \<open>before\<close>, then such a line, then \<open>after\<close>, however the
  body is cut into chunks, the loop ends in the state that the records of \<open>after\<close>, each
  processed in its turn, make of the state reached after \<open>before\<close> with that one console
  entry added, and it throws only what \<^verbatim>\<open>reader.read()\<close> threw.
\<close>

theorem unparseable_record_is_discarded:
  assumes "json_parse P (drop 6 line) = None"
    and "butlast (split_on (CHR 0x0A) (decode_all P d chunks)) = before @ line # after"
  shows "process_line P line st =
           (if startsWith line ''data: ''
            then st\<lparr>console := console st @ [SyntaxError (drop 6 line)]\<rparr> else st) \<and>
         steps (process_line P line st) = steps st \<and>
         riskData (process_line P line st) = riskData st \<and>
         loading (process_line P line st) = loading st \<and>
         error (process_line P line st) = error st \<and>
         isStreaming (process_line P line st) = isStreaming st \<and>
         read_loop P d [] chunks e st0 =
           (fold (process_line P) after
              (if startsWith line ''data: ''
               then (fold (process_line P) before st0)
                      \<lparr>console := console (fold (process_line P) before st0) @
                                   [SyntaxError (drop 6 line)]\<rparr>
               else fold (process_line P) before st0),
            case e of Done \<Rightarrow> None | ReadFailed err \<Rightarrow> Some err)"
proof -
  have one: "process_line P line s =
           (if startsWith line ''data: ''
            then s\<lparr>console := console s @ [SyntaxError (drop 6 line)]\<rparr> else s)" for s
    using assms(1) by (simp add: process_line_def)
  have "read_loop P d [] chunks e st0 =
      (fold (process_line P) (before @ line # after) st0, thrown e)"
    using read_loop_lines [of "[]" P d chunks e st0] assms(2)
    by (simp add: feed_def)
  also have "fold (process_line P) (before @ line # after) st0 =
      fold (process_line P) after (process_line P line (fold (process_line P) before st0))"
    by simp
  finally have "read_loop P d [] chunks e st0 =
      (fold (process_line P) after (process_line P line (fold (process_line P) before st0)),
       thrown e)" .
  then have loop: "read_loop P d [] chunks e st0 =
           (fold (process_line P) after
              (if startsWith line ''data: ''
               then (fold (process_line P) before st0)
                      \<lparr>console := console (fold (process_line P) before st0) @
                                   [SyntaxError (drop 6 line)]\<rparr>
               else fold (process_line P) before st0),
            case e of Done \<Rightarrow> None | ReadFailed err \<Rightarrow> Some err)"
    by (simp only: one [of "fold (process_line P) before st0"] thrown_def)
  have fields: "steps (process_line P line st) = steps st"
    "riskData (process_line P line st) = riskData st"
    "loading (process_line P line st) = loading st"
    "error (process_line P line st) = error st"
    "isStreaming (process_line P line st) = isStreaming st"
    by (simp_all add: one)
  from one [of st] fields loop show ?thesis
    by (intro conjI)
qed

theorem unparseable_record_is_discarded_witness:
  \<open>json_parse (sample_platform []) (drop 6 ''data: {"type": "step_sta'') = None \<and>
   butlast (split_on (CHR 0x0A)
     (decode_all (sample_platform []) ()
        [map of_char ''data: {"type": "step_sta\<newline>data: {"type": "step_st'',
         map of_char ''art", "step": "analyze_risk"}\<newline>\<newline>''])) =
     [] @ ''data: {"type": "step_sta'' #
       [''data: {"type": "step_start", "step": "analyze_risk"}'', ''''] \<and>
   process_line (sample_platform []) ''data: {"type": "step_sta'' Home_initial =
     Home_initial\<lparr>console := [SyntaxError ''{"type": "step_sta'']\<rparr> \<and>
   read_loop (sample_platform []) ()  []
     [map of_char ''data: {"type": "step_sta\<newline>data: {"type": "step_st'',
      map of_char ''art", "step": "analyze_risk"}\<newline>\<newline>''] Done Home_initial =
     (Home_initial\<lparr>steps := updateStep ''analyze_risk'' Active initial_steps,
                     console := [SyntaxError ''{"type": "step_sta'']\<rparr>, None)\<close>
proof -
  let ?P = "sample_platform [] :: unit platform"
  let ?line = \<open>''data: {"type": "step_sta''\<close>
  let ?entry = \<open>SyntaxError ''{"type": "step_sta''\<close>
  let ?next = \<open>''data: {"type": "step_start", "step": "analyze_risk"}''\<close>
  let ?chunks = \<open>[map of_char ''data: {"type": "step_sta\<newline>data: {"type": "step_st'',
                   map of_char ''art", "step": "analyze_risk"}\<newline>\<newline>''] :: byte list list\<close>
  have bad: "json_parse ?P (drop 6 ?line) = None"
    by (simp add: sample_platform_def sample_parse_def)
  have records: "butlast (split_on (CHR 0x0A) (decode_all ?P () ?chunks)) =
      [] @ ?line # [?next, '''']"
    by code_simp
  have pre: "startsWith ?line ''data: ''"
    by (simp add: startsWith_def)
  note inst = unparseable_record_is_discarded [OF bad records, of Home_initial Done Home_initial]
  from inst [THEN conjunct1] pre
  have one: "process_line ?P ?line Home_initial =
      Home_initial\<lparr>console := [?entry]\<rparr>"
    by (simp add: Home_initial_def)
  have rest: "(fold (process_line ?P) [?next, '''']
              (if startsWith ?line ''data: ''
               then (fold (process_line ?P) [] Home_initial)
                      \<lparr>console := console (fold (process_line ?P) [] Home_initial) @
                                   [SyntaxError (drop 6 ?line)]\<rparr>
               else fold (process_line ?P) [] Home_initial),
            case Done of Done \<Rightarrow> None | ReadFailed err \<Rightarrow> Some err) =
      (Home_initial\<lparr>steps := updateStep ''analyze_risk'' Active initial_steps,
                     console := [?entry]\<rparr>, None)"
    by code_simp
  have loop: "read_loop ?P () [] ?chunks Done Home_initial =
      (Home_initial\<lparr>steps := updateStep ''analyze_risk'' Active initial_steps,
                     console := [?entry]\<rparr>, None)"
    by (rule trans [OF inst [THEN conjunct2, THEN conjunct2, THEN conjunct2, THEN conjunct2,
          THEN conjunct2, THEN conjunct2] rest])
  from bad records one loop show ?thesis
    by (intro conjI)
qed

end
